theory Spec2Isabelle
  imports Complex_Main "HOL-Library.Sublist"
begin

section \<open>Python strings\<close>

text \<open>
  A Python \<open>str\<close> is a sequence of Unicode code points; \<open>len\<close> counts code points.
  A string is modelled as the list of its code points, the integers \<open>ord(c)\<close>. Literals
  of the source are written as \<open>u ''...''\<close> (ASCII) or by their code point (the em-dash of
  the source is U+2014).
\<close>

type_synonym uchar = int
type_synonym ustr = "uchar list"

definition u :: "string \<Rightarrow> ustr" where
  "u s = map of_char s"

definition NL :: uchar where "NL = 10"
definition LPAREN :: uchar where "LPAREN = 40"
definition EMDASH :: uchar where "EMDASH = 8212"

text \<open>
  \<open>str.isspace\<close>, \<open>str.strip()\<close>, \<open>str.split()\<close> and the class \<open>\s\<close> of \<open>re\<close> on \<open>str\<close>
  patterns all use the same set of white space code points.
\<close>

definition isspace :: "uchar \<Rightarrow> bool" where
  "isspace c \<longleftrightarrow>
     (9 \<le> c \<and> c \<le> 13) \<or> (28 \<le> c \<and> c \<le> 32) \<or> c = 133 \<or> c = 160 \<or> c = 5760 \<or>
     (8192 \<le> c \<and> c \<le> 8202) \<or> c = 8232 \<or> c = 8233 \<or> c = 8239 \<or> c = 8287 \<or> c = 12288"

text \<open>
  Two operations of the library used by the source depend on the Unicode case tables of the
  interpreter, which are not part of the repository and change with the Unicode version:

    \<^item> under \<open>re.I\<close> a literal code point of a \<open>str\<close> pattern matches one code point of the
      text, namely any member of its class of case variants (the classes partition the code
      points: in CPython 3.11 the class of \<open>k\<close> is \<open>k\<close>, \<open>K\<close> and U+212A, that of U+00E9 is
      U+00E9 and U+00C9). \<open>ignore_case U c\<close> stands for a representative of the class of
      \<open>c\<close>, so that \<open>c\<close> matches \<open>d\<close> when \<open>ignore_case U c = ignore_case U d\<close>;

    \<^item> \<open>lower U s\<close> stands for \<open>s.lower()\<close>, a map from strings to strings (it may change
      the length, and the image of a code point may depend on its neighbours).

  Both are parameters \<open>U\<close> of the model, and every theorem below is proved for all
  tables \<open>U\<close>, hence for those of any interpreter.
\<close>

record case_tables =
  ignore_case :: "uchar \<Rightarrow> uchar"
  lower :: "ustr \<Rightarrow> ustr"

text \<open>
  The worked examples are evaluated with the tables restricted to the ASCII letters. On
  strings whose cased letters are all ASCII letters (all the examples below) the two
  operations of the library are these.
\<close>

definition ascii_lower :: "uchar \<Rightarrow> uchar" where
  "ascii_lower c = (if 65 \<le> c \<and> c \<le> 90 then c + 32 else c)"

definition ascii_case :: case_tables where
  "ascii_case = \<lparr> ignore_case = ascii_lower, lower = map ascii_lower \<rparr>"

text \<open>\<open>s.strip()\<close>: white space removed at both ends.\<close>

definition strip :: "ustr \<Rightarrow> ustr" where
  "strip s = rev (dropWhile isspace (rev (dropWhile isspace s)))"

text \<open>
  \<open>fields p s\<close> cuts \<open>s\<close> at every code point satisfying \<open>p\<close>, keeping empty fields;
  \<open>s.split(c)\<close> for a one-character separator is \<open>fields (\<lambda>x. x = c) s\<close>, which is never
  the empty list.
\<close>

fun fields :: "(uchar \<Rightarrow> bool) \<Rightarrow> ustr \<Rightarrow> ustr list" where
  "fields p [] = [[]]"
| "fields p (c # cs) =
     (if p c then [] # fields p cs
      else (case fields p cs of f # fs \<Rightarrow> (c # f) # fs | [] \<Rightarrow> [[c]]))"

definition split_on :: "uchar \<Rightarrow> ustr \<Rightarrow> ustr list" where
  "split_on sep s = fields (\<lambda>c. c = sep) s"

definition split_nl :: "ustr \<Rightarrow> ustr list" where
  "split_nl s = split_on NL s"

text \<open>\<open>s.split()\<close>: the maximal runs of non-space code points.\<close>

definition split_ws :: "ustr \<Rightarrow> ustr list" where
  "split_ws s = filter (\<lambda>w. w \<noteq> []) (fields isspace s)"

text \<open>\<open>'\n'.join(xs)\<close>\<close>

fun join_nl :: "ustr list \<Rightarrow> ustr" where
  "join_nl [] = []"
| "join_nl [x] = x"
| "join_nl (x # y # ys) = x @ NL # join_nl (y # ys)"

text \<open>\<open>a in b\<close> on strings, \<open>s.startswith(a)\<close>, and the slice \<open>xs[a:b]\<close> for \<open>0 \<le> a, b\<close>.\<close>

definition contains :: "ustr \<Rightarrow> ustr \<Rightarrow> bool" where
  "contains b a = sublist a b"

definition startswith :: "ustr \<Rightarrow> ustr \<Rightarrow> bool" where
  "startswith s a = prefix a s"

definition slice :: "'a list \<Rightarrow> nat \<Rightarrow> nat \<Rightarrow> 'a list" where
  "slice xs a b = drop a (take b xs)"

section \<open>The two header patterns\<close>

text \<open>
  \<open>re.match(rf'^\s*##\s+{re.escape(section_name)}\s*$', line, re.I)\<close>.
  The leading \<open>\s*\<close> can only stop at the first non-space code point, since \<open>#\<close> is not white
  space. After \<open>##\<close> the pattern \<open>\s+\<close> may stop after any positive number of white space
  code points (the name itself may begin with white space), which \<open>spaces_then\<close> tries in
  turn as the backtracking matcher does. The escaped name is a sequence of literals, each
  matching one code point of the line up to case; then only white space may follow up to the
  end of the line (a line holds no line break, so \<open>$\<close> is the end of the line).
\<close>

fun spaces_then :: "(ustr \<Rightarrow> bool) \<Rightarrow> ustr \<Rightarrow> bool" where
  "spaces_then k [] = k []"
| "spaces_then k (c # cs) = (k (c # cs) \<or> (isspace c \<and> spaces_then k cs))"

definition name_then_spaces :: "case_tables \<Rightarrow> ustr \<Rightarrow> ustr \<Rightarrow> bool" where
  "name_then_spaces U name s \<longleftrightarrow>
     length name \<le> length s \<and>
     map (ignore_case U) (take (length name) s) = map (ignore_case U) name \<and>
     list_all isspace (drop (length name) s)"

definition header_named :: "case_tables \<Rightarrow> ustr \<Rightarrow> ustr \<Rightarrow> bool" where
  "header_named U name line =
     (let r = dropWhile isspace line in
      startswith r (u ''##'') \<and>
      (case drop 2 r of [] \<Rightarrow> False
       | c # cs \<Rightarrow> isspace c \<and> spaces_then (name_then_spaces U name) cs))"

text \<open>\<open>re.match(r'^\s*##\s+', line)\<close>\<close>

definition any_header :: "ustr \<Rightarrow> bool" where
  "any_header line =
     (let r = dropWhile isspace line in
      startswith r (u ''##'') \<and> (case drop 2 r of [] \<Rightarrow> False | c # cs \<Rightarrow> isspace c))"

text \<open>The index of the first element satisfying \<open>p\<close>: a \<open>for\<close> loop left by \<open>break\<close>.\<close>

fun first_index :: "('a \<Rightarrow> bool) \<Rightarrow> 'a list \<Rightarrow> nat option" where
  "first_index p [] = None"
| "first_index p (x # xs) = (if p x then Some 0 else map_option Suc (first_index p xs))"

text \<open>
  \<open>section_end\<close> after the second loop: the first line at or after \<open>section_start\<close> that is
  a level-2 header of any name, else \<open>len(lines)\<close>.
\<close>

definition find_section_end :: "ustr list \<Rightarrow> nat \<Rightarrow> nat" where
  "find_section_end lines section_start =
     (case first_index any_header (drop section_start lines) of
        None \<Rightarrow> length lines
      | Some k \<Rightarrow> section_start + k)"

section \<open>\<open>extract_section\<close>\<close>

definition blank :: "ustr \<Rightarrow> bool" where
  "blank line \<longleftrightarrow> strip line = []"

text \<open>The two \<open>while\<close> loops popping empty lines at the start and at the end.\<close>

definition pop_blank_ends :: "ustr list \<Rightarrow> ustr list" where
  "pop_blank_ends content_lines = rev (dropWhile blank (rev (dropWhile blank content_lines)))"

definition extract_section :: "case_tables \<Rightarrow> ustr \<Rightarrow> ustr \<Rightarrow> ustr" where
  "extract_section U markdown section_name =
     (let lines = split_nl markdown in
      case first_index (header_named U section_name) lines of
        None \<Rightarrow> []
      | Some i \<Rightarrow>
          let section_start = i + 1;
              section_end = find_section_end lines section_start
          in join_nl (pop_blank_ends (slice lines section_start section_end)))"

section \<open>\<open>apply_patch_to_section\<close>\<close>

text \<open>
  The similarity test \<open>len(a & b) / len(a | b) > 0.8\<close> is a comparison of two binary64
  numbers: the quotient of two integers, correctly rounded (ties to even), and the literal
  \<open>0.8\<close>, which is the binary64 number nearest to 4/5. Between 1/2 and 1 the binary64 numbers
  are the multiples of \<open>2^-53\<close>, so there the rounded value of \<open>q\<close> is
  \<open>binary64_units q\<close> times \<open>2^-53\<close>. A quotient below 1/2 rounds to at most 1/2, and
  \<open>binary64_units\<close> of it is at most \<open>2^52\<close>: in both readings it is not above \<open>0.8\<close>.
  A quotient of sizes of an intersection and a union is at most 1.
\<close>

definition round_half_even :: "rat \<Rightarrow> int" where
  "round_half_even q =
     (let f = \<lfloor>q\<rfloor>; r = q - of_int f in
      if r < 1 / 2 then f else if 1 / 2 < r then f + 1 else if even f then f else f + 1)"

definition binary64_units :: "rat \<Rightarrow> int" where
  "binary64_units q = round_half_even (q * 2 ^ 53)"

definition quotient_above_0_8 :: "nat \<Rightarrow> nat \<Rightarrow> bool" where
  "quotient_above_0_8 i n \<longleftrightarrow>
     binary64_units (of_nat i / of_nat n) > binary64_units (8 / 10)"

text \<open>The item of a stripped bullet line, \<open>line[2:].strip()\<close>, and its name.\<close>

definition item_of :: "ustr \<Rightarrow> ustr" where
  "item_of stripped_line = strip (drop 2 stripped_line)"

definition name_of :: "ustr \<Rightarrow> ustr" where
  "name_of item = strip (hd (split_on EMDASH (hd (split_on LPAREN item))))"

definition similar_items :: "case_tables \<Rightarrow> ustr \<Rightarrow> ustr \<Rightarrow> bool" where
  "similar_items U new_item existing_item \<longleftrightarrow>
     length new_item > 10 \<and> length existing_item > 10 \<and>
     (let new_words = set (split_ws (lower U new_item));
          existing_words = set (split_ws (lower U existing_item))
      in card new_words > 0 \<and> card existing_words > 0 \<and>
         quotient_above_0_8 (card (new_words \<inter> existing_words))
                            (card (new_words \<union> existing_words)))"

text \<open>
  The three tests on one incoming item and one existing item. Each of them leaves the
  function with \<open>return markdown\<close>.
\<close>

definition exact_match :: "case_tables \<Rightarrow> ustr \<Rightarrow> ustr \<Rightarrow> bool" where
  "exact_match U new_item existing_item \<longleftrightarrow> lower U existing_item = lower U new_item"

definition name_match :: "case_tables \<Rightarrow> ustr \<Rightarrow> ustr \<Rightarrow> bool" where
  "name_match U new_item existing_item \<longleftrightarrow>
     lower U (name_of new_item) = lower U (name_of existing_item) \<and>
     length (name_of new_item) > 2"

definition item_duplicate :: "case_tables \<Rightarrow> ustr \<Rightarrow> ustr \<Rightarrow> bool" where
  "item_duplicate U new_item existing_item \<longleftrightarrow>
     exact_match U new_item existing_item \<or> name_match U new_item existing_item \<or>
     similar_items U new_item existing_item"

definition is_bullet :: "ustr \<Rightarrow> bool" where
  "is_bullet line \<longleftrightarrow> startswith (strip line) (u ''* '')"

text \<open>
  The nested loops of the bullet branch: some incoming bullet line and some bullet line of
  the section make one of the three tests succeed.
\<close>

definition bullet_duplicate :: "case_tables \<Rightarrow> ustr list \<Rightarrow> ustr list \<Rightarrow> bool" where
  "bullet_duplicate U section_lines new_lines_to_add \<longleftrightarrow>
     list_ex (\<lambda>new_line.
        is_bullet new_line \<and>
        list_ex (\<lambda>line.
           is_bullet line \<and>
           item_duplicate U (item_of (strip new_line)) (item_of (strip line)))
          section_lines)
       new_lines_to_add"

text \<open>The \<open>else\<close> branch: the stripped non-empty lines of both texts are compared.\<close>

definition stripped_lines :: "ustr \<Rightarrow> ustr list" where
  "stripped_lines s = map strip (filter (\<lambda>line. strip line \<noteq> []) (split_nl s))"

definition prose_duplicate :: "ustr \<Rightarrow> ustr \<Rightarrow> bool" where
  "prose_duplicate existing_content new_content_clean \<longleftrightarrow>
     list_ex (\<lambda>new_line. new_line \<in> set (stripped_lines existing_content))
       (stripped_lines new_content_clean)"

text \<open>The lines appended to the section's lines when the patch is not a duplicate.\<close>

definition appended_lines :: "ustr list \<Rightarrow> nat \<Rightarrow> nat \<Rightarrow> ustr \<Rightarrow> ustr list" where
  "appended_lines lines section_start section_end new_content =
     (if strip new_content \<noteq> [] then
        (if section_end > section_start \<and> strip (lines ! (section_end - 1)) \<noteq> []
         then [[]] else []) @ split_nl new_content
      else [])"

definition apply_patch_to_section :: "case_tables \<Rightarrow> ustr \<Rightarrow> ustr \<Rightarrow> ustr \<Rightarrow> ustr" where
  "apply_patch_to_section U markdown section_name new_content =
     (let lines = split_nl markdown in
      case first_index (header_named U section_name) lines of
        None \<Rightarrow>
          join_nl (lines @ (if lines \<noteq> [] \<and> strip (last lines) \<noteq> [] then [[]] else [])
                     @ [u ''## '' @ section_name, []] @ split_nl new_content)
      | Some i \<Rightarrow>
          let section_start = i + 1;
              section_end = find_section_end lines section_start;
              existing_content = strip (join_nl (slice lines section_start section_end));
              new_content_clean = strip new_content
          in
            if contains existing_content new_content_clean then markdown
            else if (if startswith new_content_clean (u ''* '')
                     then bullet_duplicate U (slice lines section_start section_end)
                            (split_nl new_content_clean)
                     else prose_duplicate existing_content new_content_clean) then markdown
            else
              join_nl (take section_end lines
                       @ appended_lines lines section_start section_end new_content
                       @ drop section_end lines))"

section \<open>Auxiliary notions\<close>

text \<open>
  \<open>strip\<close> and the two popping loops of \<open>extract_section\<close> have the same shape:
  elements satisfying a predicate are removed at both ends. \<open>trimmed P m\<close> says that
  nothing is left to remove.
\<close>

definition trim :: "('a \<Rightarrow> bool) \<Rightarrow> 'a list \<Rightarrow> 'a list" where
  "trim P xs = rev (dropWhile P (rev (dropWhile P xs)))"

definition trimmed :: "('a \<Rightarrow> bool) \<Rightarrow> 'a list \<Rightarrow> bool" where
  "trimmed P m \<longleftrightarrow> m = [] \<or> (\<not> P (hd m) \<and> \<not> P (last m))"

text \<open>
  The values of \<open>section_end\<close> and of \<open>lines[section_start:section_end]\<close> in both functions,
  as functions of the document and the name: the lines of the target section, and the index
  of the line after them. When the document has no header of that name the section has no
  lines and the index is the number of lines of the document.
\<close>

definition target_end :: "case_tables \<Rightarrow> ustr \<Rightarrow> ustr \<Rightarrow> nat" where
  "target_end U markdown section_name =
     (let lines = split_nl markdown in
      case first_index (header_named U section_name) lines of
        None \<Rightarrow> length lines
      | Some i \<Rightarrow> find_section_end lines (i + 1))"

definition section_lines :: "case_tables \<Rightarrow> ustr \<Rightarrow> ustr \<Rightarrow> ustr list" where
  "section_lines U markdown section_name =
     (let lines = split_nl markdown in
      case first_index (header_named U section_name) lines of
        None \<Rightarrow> []
      | Some i \<Rightarrow> slice lines (i + 1) (find_section_end lines (i + 1)))"

text \<open>
  The three places where \<open>apply_patch_to_section\<close> returns \<open>markdown\<close> for a patch it takes
  as already present, as one condition on the lines of the section.
\<close>

definition is_duplicate :: "case_tables \<Rightarrow> ustr list \<Rightarrow> ustr \<Rightarrow> bool" where
  "is_duplicate U sec new_content \<longleftrightarrow>
     (let existing_content = strip (join_nl sec);
          new_content_clean = strip new_content
      in contains existing_content new_content_clean \<or>
         (if startswith new_content_clean (u ''* '')
          then bullet_duplicate U sec (split_nl new_content_clean)
          else prose_duplicate existing_content new_content_clean))"

text \<open>The level-2 header lines of a document, in order.\<close>

definition headers :: "ustr \<Rightarrow> ustr list" where
  "headers markdown = filter any_header (split_nl markdown)"



text \<open>
  The classification of a patch as the specification words it: a bullet block is a content
  whose first non-blank line begins with the marker.
\<close>

definition spec_bullet_block :: "ustr \<Rightarrow> bool" where
  "spec_bullet_block new_content \<longleftrightarrow>
     (case filter (\<lambda>line. \<not> blank line) (split_nl new_content) of
        [] \<Rightarrow> False
      | line # rest \<Rightarrow> startswith line (u ''* ''))"

text \<open>
  The test of the prose branch on the lines themselves: some non-blank line of the patch
  content equals, once stripped, a stripped line of the section.
\<close>

definition prose_line_match :: "ustr list \<Rightarrow> ustr list \<Rightarrow> bool" where
  "prose_line_match sec new_lines \<longleftrightarrow>
     list_ex (\<lambda>a. \<not> blank a \<and> list_ex (\<lambda>b. strip a = strip b) sec) new_lines"

text \<open>The empty line put before an accepted patch when the section ends with a non-blank line.\<close>

definition separator :: "ustr list \<Rightarrow> ustr list" where
  "separator sec = (if sec \<noteq> [] \<and> \<not> blank (last sec) then [[]] else [])"

text \<open>
  A second table for one example outside ASCII: the tables of CPython 3.11 on the ASCII
  letters and on U+0130 (capital I with dot above) and U+0131 (dotless i). \<open>re.I\<close> puts
  both in the class of \<open>i\<close>, and \<open>lower()\<close> maps U+0130 to \<open>i\<close> followed by U+0307
  (combining dot above).
\<close>

definition dotted_case :: case_tables where
  "dotted_case =
     \<lparr> ignore_case = (\<lambda>c. if c = 304 \<or> c = 305 then 105 else ascii_lower c),
       lower = (\<lambda>s. concat (map (\<lambda>c. if c = 304 then [105, 775] else [ascii_lower c]) s)) \<rparr>"

section \<open>The documents of the scenarios\<close>

definition max_line :: ustr where
  "max_line = u ''* Max (shadow wizard) '' @ [EMDASH] @ u '' can control shadows''"

definition characters_doc :: ustr where
  "characters_doc = u ''## Characters'' @ [NL, NL] @ max_line"

definition setting_doc :: ustr where
  "setting_doc = u ''## Setting'' @ [NL, NL] @ u ''A quiet village by the sea.''"

definition project_doc :: ustr where
  "project_doc = u ''# My Project'' @ [NL, NL] @ u ''## Setting'' @ [NL, NL] @ u ''A quiet village.''"

definition zara_line :: ustr where
  "zara_line = u ''* Zara (fire mage) '' @ [EMDASH] @ u '' can summon flames''"

definition story_doc :: ustr where
  "story_doc = u ''# My Project'' @ [NL, NL] @ characters_doc @ [NL, NL] @ setting_doc"

definition notes_doc :: ustr where
  "notes_doc = u ''intro'' @ [NL] @ u ''  ## Notes  '' @ [NL, 32, NL] @ u ''a'' @ [NL, NL]
     @ u ''b'' @ [NL, 9, NL] @ u ''## Next'' @ [NL] @ u ''z''"

definition max_patch :: ustr where
  "max_patch = u ''* Max '' @ [EMDASH] @ u '' controls shadow creatures''"

definition indented_patch :: ustr where
  "indented_patch = u ''  * Max '' @ [EMDASH] @ u '' hero''"




text \<open>A patch content that holds a header line.\<close>

definition plot_patch :: ustr where
  "plot_patch = u ''## Plot'' @ [NL] @ u ''A storm.''"

section \<open>Basic facts\<close>

lemma strip_Nil [simp]: "strip [] = []"
  by (simp add: strip_def)

lemma strip_all_space: "list_all isspace s \<Longrightarrow> strip s = []"
proof -
  assume "list_all isspace s"
  then have e: "dropWhile isspace s = []"
    by (simp add: list_all_iff)
  show ?thesis
    unfolding strip_def e by simp
qed

lemma contains_Nil [simp]: "contains b []"
  by (simp add: contains_def)

lemma fields_nonempty [simp]: "fields p s \<noteq> []"
  by (induction s) (auto split: list.splits)

lemma split_nl_nonempty [simp]: "split_nl s \<noteq> []"
  by (simp add: split_nl_def split_on_def)

lemma fields_append_sep:
  "p c \<Longrightarrow> fields p (a @ c # b) = fields p a @ fields p b"
proof (induction a)
  case Nil
  then show ?case by simp
next
  case (Cons x a)
  then show ?case
    by (cases "fields p a") auto
qed

lemma fields_no_sep: "\<forall>c\<in>set s. \<not> p c \<Longrightarrow> fields p s = [s]"
  by (induction s) auto

lemma fields_elems_no_sep: "\<forall>l\<in>set (fields p s). \<forall>c\<in>set l. \<not> p c"
  by (induction s) (auto split: list.splits)

lemma split_nl_append:
  "split_nl (a @ NL # b) = split_nl a @ split_nl b"
  by (simp add: split_nl_def split_on_def fields_append_sep)

lemma split_nl_no_NL: "NL \<notin> set s \<Longrightarrow> split_nl s = [s]"
  by (rule fields_no_sep[of s "\<lambda>c. c = NL", folded split_on_def split_nl_def]) auto

lemma split_nl_lines_no_NL: "l \<in> set (split_nl s) \<Longrightarrow> NL \<notin> set l"
  using fields_elems_no_sep[of "\<lambda>c. c = NL" s]
  by (auto simp: split_nl_def split_on_def)

lemma join_nl_Cons: "ys \<noteq> [] \<Longrightarrow> join_nl (x # ys) = x @ NL # join_nl ys"
  by (cases ys) auto

lemma join_nl_append:
  "xs \<noteq> [] \<Longrightarrow> ys \<noteq> [] \<Longrightarrow> join_nl (xs @ ys) = join_nl xs @ NL # join_nl ys"
proof (induction xs rule: join_nl.induct)
  case 1
  then show ?case by simp
next
  case (2 x)
  then show ?case by (simp add: join_nl_Cons)
next
  case (3 x y ys)
  then show ?case by simp
qed

lemma join_split [simp]: "join_nl (split_nl s) = s"
proof (induction s)
  case Nil
  then show ?case by (simp add: split_nl_def split_on_def)
next
  case (Cons c s)
  obtain f fs where e: "split_nl s = f # fs"
    by (cases "split_nl s") auto
  show ?case
  proof (cases "c = NL")
    case True
    then have "split_nl (c # s) = [] # split_nl s"
      by (simp add: split_nl_def split_on_def)
    with Cons True show ?thesis by (simp add: join_nl_Cons)
  next
    case False
    then have "split_nl (c # s) = (c # f) # fs"
      using e by (simp add: split_nl_def split_on_def)
    moreover have "join_nl ((c # f) # fs) = c # join_nl (f # fs)"
      by (cases fs) auto
    ultimately show ?thesis using Cons e by simp
  qed
qed

lemma split_join:
  "xs \<noteq> [] \<Longrightarrow> \<forall>l\<in>set xs. NL \<notin> set l \<Longrightarrow> split_nl (join_nl xs) = xs"
proof (induction xs rule: join_nl.induct)
  case 1
  then show ?case by simp
next
  case (2 x)
  then show ?case by (simp add: split_nl_no_NL)
next
  case (3 x y ys)
  then show ?case by (simp add: split_nl_append split_nl_no_NL)
qed

lemma first_index_None: "first_index p xs = None \<longleftrightarrow> \<not> list_ex p xs"
  by (induction xs) auto

lemma first_index_Some:
  "first_index p xs = Some i \<Longrightarrow> i < length xs \<and> p (xs ! i) \<and> (\<forall>j<i. \<not> p (xs ! j))"
proof (induction xs arbitrary: i)
  case Nil
  then show ?case by simp
next
  case (Cons x xs)
  show ?case
  proof (cases "p x")
    case True
    with Cons.prems show ?thesis by simp
  next
    case False
    with Cons.prems obtain k where k: "first_index p xs = Some k" "i = Suc k"
      by auto
    from Cons.IH[OF k(1)] False k(2) show ?thesis
      by (auto simp: less_Suc_eq_0_disj)
  qed
qed

lemma list_ex_first_index: "list_ex p xs \<Longrightarrow> \<exists>i. first_index p xs = Some i"
  using first_index_None[of p xs] by (cases "first_index p xs") auto

lemma isspace_NL [simp]: "isspace NL"
  by (simp add: isspace_def NL_def)

lemma list_all_takeWhile: "list_all P (takeWhile P xs)"
  by (induction xs) auto

lemma last_dropWhile_ne: "dropWhile P xs \<noteq> [] \<Longrightarrow> last (dropWhile P xs) = last xs"
  by (induction xs) (auto split: if_splits)

lemma dropWhile_all: "list_all P w \<Longrightarrow> dropWhile P (w @ s) = dropWhile P s"
  by (induction w) auto

lemma dropWhile_not_all: "\<not> list_all P ps \<Longrightarrow> dropWhile P (ps @ r) = dropWhile P ps @ r"
  by (induction ps) auto

lemma dropWhile_hd_id: "s \<noteq> [] \<Longrightarrow> \<not> P (hd s) \<Longrightarrow> dropWhile P s = s"
  by (cases s) auto

lemma strip_trim: "strip s = trim isspace s"
  by (simp add: strip_def trim_def)

lemma pop_blank_ends_trim: "pop_blank_ends xs = trim blank xs"
  by (simp add: pop_blank_ends_def trim_def)

lemma trim_all: "list_all P xs \<Longrightarrow> trim P xs = []"
proof -
  assume "list_all P xs"
  then have e: "dropWhile P xs = []"
    by (simp add: list_all_iff)
  show ?thesis
    unfolding trim_def e by simp
qed

lemma trim_char:
  assumes "list_all P w1" and "list_all P w2" and "trimmed P m"
  shows "trim P (w1 @ m @ w2) = m"
proof (cases "m = []")
  case True
  have "list_all P (w1 @ m @ w2)"
    using assms(1,2) True by simp
  then show ?thesis using True by (simp only: trim_all)
next
  case False
  with assms(3) have h: "\<not> P (hd m)" and l: "\<not> P (last m)"
    by (auto simp: trimmed_def)
  have "dropWhile P (w1 @ m @ w2) = dropWhile P (m @ w2)"
    using assms(1) by (rule dropWhile_all)
  also have "\<dots> = m @ w2"
    using False h by (intro dropWhile_hd_id) auto
  finally have 1: "dropWhile P (w1 @ m @ w2) = m @ w2" .
  have "dropWhile P (rev (m @ w2)) = dropWhile P (rev m)"
    using assms(2) by (simp add: dropWhile_all)
  also have "\<dots> = rev m"
    using False l by (intro dropWhile_hd_id) (auto simp: hd_rev)
  finally show ?thesis unfolding trim_def 1 by simp
qed

lemma trim_decomp:
  "\<exists>w1 w2. s = w1 @ trim P s @ w2 \<and> list_all P w1 \<and> list_all P w2"
proof -
  let ?d = "dropWhile P s"
  have 1: "s = takeWhile P s @ ?d" by simp
  have "rev (rev ?d) = rev (takeWhile P (rev ?d) @ dropWhile P (rev ?d))"
    by (simp only: takeWhile_dropWhile_id)
  then have 2: "?d = trim P s @ rev (takeWhile P (rev ?d))"
    unfolding rev_append rev_rev_ident trim_def .
  have "s = takeWhile P s @ trim P s @ rev (takeWhile P (rev ?d))"
    using 1 2 by metis
  moreover have "list_all P (takeWhile P s)"
    by (rule list_all_takeWhile)
  moreover have "list_all P (rev (takeWhile P (rev ?d)))"
    by (simp add: list_all_takeWhile)
  ultimately show ?thesis by blast
qed

lemma trimmed_trim [simp]: "trimmed P (trim P s)"
proof (cases "trim P s = []")
  case True
  then show ?thesis by (simp add: trimmed_def)
next
  case False
  let ?d = "dropWhile P s"
  let ?e = "dropWhile P (rev ?d)"
  have e: "?e \<noteq> []" using False by (simp add: trim_def)
  then have l: "\<not> P (hd ?e)" by (rule hd_dropWhile)
  have d: "?d \<noteq> []"
  proof (rule notI)
    assume a: "?d = []"
    show False using e unfolding a by simp
  qed
  then have h: "\<not> P (hd ?d)" by (rule hd_dropWhile)
  have "last ?e = last (rev ?d)" using e by (rule last_dropWhile_ne)
  then have "hd (trim P s) = hd ?d"
    using e d by (simp add: trim_def hd_rev last_rev)
  moreover have "last (trim P s) = hd ?e"
    using e by (simp add: trim_def last_rev)
  ultimately show ?thesis using l h by (simp add: trimmed_def)
qed

lemma trim_pad:
  assumes "list_all P w1" and "list_all P w2"
  shows "trim P (w1 @ s @ w2) = trim P s"
proof -
  obtain v1 v2 where s: "s = v1 @ trim P s @ v2" and v: "list_all P v1" "list_all P v2"
    using trim_decomp by blast
  define m where "m = trim P s"
  have s': "s = v1 @ m @ v2" using s by (simp add: m_def)
  have t: "trimmed P m" by (simp add: m_def)
  have e: "w1 @ s @ w2 = (w1 @ v1) @ m @ (v2 @ w2)"
    by (simp add: s')
  have "trim P ((w1 @ v1) @ m @ (v2 @ w2)) = m"
    using assms v t by (intro trim_char) auto
  then show ?thesis
    by (simp only: e) (simp add: m_def)
qed

lemma strip_char:
  "list_all isspace w1 \<Longrightarrow> list_all isspace w2 \<Longrightarrow> trimmed isspace m \<Longrightarrow> strip (w1 @ m @ w2) = m"
  by (simp add: strip_trim trim_char)

lemma strip_decomp:
  "\<exists>w1 w2. s = w1 @ strip s @ w2 \<and> list_all isspace w1 \<and> list_all isspace w2"
  by (simp add: strip_trim trim_decomp)

lemma trimmed_strip [simp]: "trimmed isspace (strip s)"
  by (simp add: strip_trim)

lemma strip_pad:
  "list_all isspace w1 \<Longrightarrow> list_all isspace w2 \<Longrightarrow> strip (w1 @ s @ w2) = strip s"
  by (simp add: strip_trim trim_pad)

lemma strip_fixed: "trimmed isspace s \<Longrightarrow> strip s = s"
  using strip_char[of "[]" "[]" s] by simp

lemma blank_iff: "blank l \<longleftrightarrow> list_all isspace l"
proof
  assume "blank l"
  then have s: "strip l = []" by (simp add: blank_def)
  obtain w1 w2 where "l = w1 @ strip l @ w2" "list_all isspace w1" "list_all isspace w2"
    using strip_decomp by blast
  then show "list_all isspace l" using s by (metis append_Nil list_all_append)
next
  assume "list_all isspace l"
  then show "blank l" by (simp add: blank_def strip_all_space)
qed

lemma sublist_strip_self: "sublist (strip s) s"
  using strip_decomp[of s] by (metis sublist_appendI)

lemma sublist_trimmed_strip:
  assumes "sublist m b" and "trimmed isspace m"
  shows "sublist m (strip b)"
proof (cases "m = []")
  case True
  then show ?thesis by simp
next
  case False
  with assms(2) have h: "\<not> isspace (hd m)" and l: "\<not> isspace (last m)"
    by (auto simp: trimmed_def)
  from assms(1) obtain ps ss where b: "b = ps @ m @ ss"
    by (auto simp: sublist_def)
  have 1: "\<exists>ps'. dropWhile isspace (ps @ m @ ss) = ps' @ m @ ss"
  proof (cases "list_all isspace ps")
    case True
    then have "dropWhile isspace (ps @ m @ ss) = dropWhile isspace (m @ ss)"
      by (rule dropWhile_all)
    also have "\<dots> = m @ ss" using False h by (intro dropWhile_hd_id) auto
    finally show ?thesis by (metis append_Nil)
  next
    case False
    then have "dropWhile isspace (ps @ m @ ss) = dropWhile isspace ps @ m @ ss"
      by (rule dropWhile_not_all)
    then show ?thesis by blast
  qed
  then obtain ps' where p: "dropWhile isspace b = ps' @ m @ ss" using b by blast
  have 2: "\<exists>ss'. dropWhile isspace (rev ss @ rev m @ rev ps') = ss' @ rev m @ rev ps'"
  proof (cases "list_all isspace (rev ss)")
    case True
    then have "dropWhile isspace (rev ss @ rev m @ rev ps') = dropWhile isspace (rev m @ rev ps')"
      by (rule dropWhile_all)
    also have "\<dots> = rev m @ rev ps'"
      using \<open>m \<noteq> []\<close> l by (intro dropWhile_hd_id) (auto simp: hd_append hd_rev)
    finally show ?thesis by (metis append_Nil)
  next
    case False
    then have "dropWhile isspace (rev ss @ rev m @ rev ps') = dropWhile isspace (rev ss) @ rev m @ rev ps'"
      by (rule dropWhile_not_all)
    then show ?thesis by blast
  qed
  then obtain ss' where "dropWhile isspace (rev (ps' @ m @ ss)) = ss' @ rev m @ rev ps'"
    by auto
  then have "strip b = ps' @ m @ rev ss'"
    unfolding strip_def p by simp
  then show ?thesis by (metis sublist_appendI)
qed

lemma join_nl_blank: "list_all blank a \<Longrightarrow> list_all isspace (join_nl a)"
proof (induction a rule: join_nl.induct)
  case 1
  then show ?case by simp
next
  case (2 x)
  then show ?case by (simp add: blank_iff)
next
  case (3 x y ys)
  then show ?case by (simp add: blank_iff)
qed

lemma join_nl_blank_prefix:
  assumes "list_all blank a"
  shows "\<exists>w. list_all isspace w \<and> join_nl (a @ c) = w @ join_nl c"
proof (cases "a = [] \<or> c = []")
  case True
  then show ?thesis
  proof
    assume "a = []"
    then show ?thesis by (intro exI[of _ "[]"]) simp
  next
    assume "c = []"
    then show ?thesis using join_nl_blank[OF assms] by (intro exI[of _ "join_nl a"]) simp
  qed
next
  case False
  then have "join_nl (a @ c) = (join_nl a @ [NL]) @ join_nl c"
    by (simp add: join_nl_append)
  moreover have "list_all isspace (join_nl a @ [NL])"
    using join_nl_blank[OF assms] by simp
  ultimately show ?thesis by blast
qed

lemma join_nl_blank_suffix:
  assumes "list_all blank b"
  shows "\<exists>w. list_all isspace w \<and> join_nl (c @ b) = join_nl c @ w"
proof (cases "b = [] \<or> c = []")
  case True
  then show ?thesis
  proof
    assume "b = []"
    then show ?thesis by (intro exI[of _ "[]"]) simp
  next
    assume "c = []"
    then show ?thesis using join_nl_blank[OF assms] by (intro exI[of _ "join_nl b"]) simp
  qed
next
  case False
  then have "join_nl (c @ b) = join_nl c @ (NL # join_nl b)"
    by (simp add: join_nl_append)
  moreover have "list_all isspace (NL # join_nl b)"
    using join_nl_blank[OF assms] by simp
  ultimately show ?thesis by blast
qed

lemma strip_join_pop: "strip (join_nl (pop_blank_ends xs)) = strip (join_nl xs)"
proof -
  obtain a b where xs: "xs = a @ pop_blank_ends xs @ b" and ab: "list_all blank a" "list_all blank b"
    using trim_decomp[of xs blank] by (auto simp: pop_blank_ends_trim)
  define c where "c = pop_blank_ends xs"
  have xs': "xs = a @ c @ b" using xs by (simp add: c_def)
  obtain w1 where w1: "list_all isspace w1" "join_nl (a @ c @ b) = w1 @ join_nl (c @ b)"
    using join_nl_blank_prefix[OF ab(1)] by blast
  obtain w2 where w2: "list_all isspace w2" "join_nl (c @ b) = join_nl c @ w2"
    using join_nl_blank_suffix[OF ab(2)] by blast
  have "join_nl xs = w1 @ join_nl c @ w2"
    using w1(2) w2(2) by (simp add: xs')
  then have "strip (join_nl xs) = strip (join_nl c)"
    using w1(1) w2(1) by (simp add: strip_pad)
  then show ?thesis by (simp add: c_def)
qed

lemma find_section_end_bounds:
  assumes "i < length lines"
  shows "i + 1 \<le> find_section_end lines (i + 1) \<and> find_section_end lines (i + 1) \<le> length lines"
proof (cases "first_index any_header (drop (i + 1) lines)")
  case None
  then show ?thesis using assms by (simp add: find_section_end_def)
next
  case (Some k)
  from first_index_Some[OF Some] have "k < length lines - (i + 1)" by simp
  then show ?thesis using Some by (simp add: find_section_end_def)
qed

lemma split_join_append:
  assumes "A \<noteq> []" and "\<forall>l\<in>set A. NL \<notin> set l" and "X \<noteq> []"
  shows "split_nl (join_nl (A @ X)) = A @ split_nl (join_nl X)"
  using assms by (simp add: join_nl_append split_nl_append split_join)

lemma first_index_append_None:
  "\<not> list_ex p xs \<Longrightarrow>
   first_index p (xs @ ys) = map_option (\<lambda>k. length xs + k) (first_index p ys)"
proof (induction xs)
  case Nil
  show ?case by (cases "first_index p ys") auto
next
  case (Cons a xs)
  then show ?case by (cases "first_index p ys") auto
qed

lemma first_index_append_Some:
  "first_index p xs = Some i \<Longrightarrow> first_index p (xs @ ys) = Some i"
  by (induction xs arbitrary: i) (auto split: if_splits)

lemma spaces_then_here: "k s \<Longrightarrow> spaces_then k s"
  by (cases s) auto

lemma name_then_spaces_refl: "name_then_spaces U name name"
  by (simp add: name_then_spaces_def)

lemma header_named_own: "header_named U name (u ''## '' @ name)"
  by (simp add: header_named_def u_def isspace_def startswith_def spaces_then_here
      name_then_spaces_refl)

lemma any_header_own: "any_header (u ''## '' @ name)"
  by (simp add: any_header_def u_def isspace_def startswith_def)

lemma header_named_Nil: "\<not> header_named U name []"
  by (simp add: header_named_def u_def startswith_def)

lemma any_header_Nil: "\<not> any_header []"
  by (simp add: any_header_def u_def startswith_def)

lemma NL_notin_marker: "NL \<notin> set (u ''## '')"
  by (simp add: u_def NL_def)

lemma blank_Nil: "blank []"
  by (simp add: blank_def)

lemma pop_blank_ends_Cons_Nil: "pop_blank_ends ([] # xs) = pop_blank_ends xs"
  using trim_pad[of blank "[[]]" "[]" xs] by (simp add: pop_blank_ends_trim blank_Nil)

lemma apply_patch_present:
  assumes "first_index (header_named U section_name) (split_nl markdown) = Some i"
  shows "apply_patch_to_section U markdown section_name new_content =
     (if is_duplicate U (section_lines U markdown section_name) new_content
      then markdown
      else join_nl (take (target_end U markdown section_name) (split_nl markdown)
             @ appended_lines (split_nl markdown) (i + 1)
                 (target_end U markdown section_name) new_content
             @ drop (target_end U markdown section_name) (split_nl markdown)))"
  by (simp add: apply_patch_to_section_def is_duplicate_def section_lines_def target_end_def
      Let_def assms)

lemma fields_append:
  "fields p (a @ b) = butlast (fields p a) @ [last (fields p a) @ hd (fields p b)] @ tl (fields p b)"
proof (induction a)
  case Nil
  have "fields p b \<noteq> []" by simp
  then show ?case by (cases "fields p b") auto
next
  case (Cons c a)
  obtain f fs where fa: "fields p a = f # fs"
    by (cases "fields p a") auto
  show ?case
  proof (cases "p c")
    case True
    then show ?thesis using Cons by simp
  next
    case False
    show ?thesis
    proof (cases fs)
      case Nil
      then show ?thesis using Cons False fa by simp
    next
      case (Cons g gs)
      then show ?thesis using Cons.IH False fa by simp
    qed
  qed
qed

lemma fields_elems_subset: "\<forall>l\<in>set (fields p s). set l \<subseteq> set s"
  by (induction s) (auto split: list.splits)

lemma stripped_lines_all_space: "list_all isspace w \<Longrightarrow> stripped_lines w = []"
proof -
  assume w: "list_all isspace w"
  have "\<forall>l\<in>set (split_nl w). strip l = []"
  proof
    fix l assume "l \<in> set (split_nl w)"
    then have "set l \<subseteq> set w"
      using fields_elems_subset[of "\<lambda>c. c = NL" w] by (simp add: split_nl_def split_on_def)
    with w have "list_all isspace l" by (auto simp: list_all_iff)
    then show "strip l = []" by (rule strip_all_space)
  qed
  then show ?thesis by (simp add: stripped_lines_def filter_empty_conv)
qed

lemma strip_Cons_space: "isspace c \<Longrightarrow> strip (c # s) = strip s"
  using strip_pad[of "[c]" "[]" s] by simp

lemma stripped_lines_space_prefix:
  "list_all isspace w \<Longrightarrow> stripped_lines (w @ s) = stripped_lines s"
proof (induction w)
  case Nil
  then show ?case by simp
next
  case (Cons c w)
  then have c: "isspace c" and IH: "stripped_lines (w @ s) = stripped_lines s"
    by auto
  obtain f fs where e: "split_nl (w @ s) = f # fs"
    by (cases "split_nl (w @ s)") auto
  show ?case
  proof (cases "c = NL")
    case True
    then have "split_nl ((c # w) @ s) = [] # split_nl (w @ s)"
      by (simp add: split_nl_def split_on_def)
    then show ?thesis using IH by (simp add: stripped_lines_def)
  next
    case False
    then have "split_nl ((c # w) @ s) = (c # f) # fs"
      using e by (simp add: split_nl_def split_on_def)
    then have "stripped_lines ((c # w) @ s)
        = map strip (filter (\<lambda>line. strip line \<noteq> []) ((c # f) # fs))"
      by (simp only: stripped_lines_def)
    also have "\<dots> = map strip (filter (\<lambda>line. strip line \<noteq> []) (f # fs))"
      using c by (simp add: strip_Cons_space)
    also have "\<dots> = stripped_lines (w @ s)"
      by (simp only: stripped_lines_def e)
    finally show ?thesis using IH by simp
  qed
qed

lemma stripped_lines_space_suffix:
  assumes "list_all isspace w"
  shows "stripped_lines (s @ w) = stripped_lines s"
proof -
  let ?nb = "\<lambda>line. strip line \<noteq> []"
  let ?LS = "split_nl s" and ?LW = "split_nl w"
  have a: "split_nl (s @ w) = butlast ?LS @ [last ?LS @ hd ?LW] @ tl ?LW"
    by (simp add: split_nl_def split_on_def fields_append)
  have lw: "\<forall>l\<in>set ?LW. list_all isspace l"
  proof
    fix l assume "l \<in> set ?LW"
    then have "set l \<subseteq> set w"
      using fields_elems_subset[of "\<lambda>c. c = NL" w] by (simp add: split_nl_def split_on_def)
    with assms show "list_all isspace l" by (auto simp: list_all_iff)
  qed
  have ne: "?LW \<noteq> []" by simp
  then have h: "list_all isspace (hd ?LW)" using lw by simp
  have t: "filter ?nb (tl ?LW) = []"
  proof -
    have "\<forall>l\<in>set (tl ?LW). strip l = []"
      using lw ne by (metis list.set_sel(2) strip_all_space)
    then show ?thesis by (simp add: filter_empty_conv)
  qed
  have s: "strip (last ?LS @ hd ?LW) = strip (last ?LS)"
    using strip_pad[of "[]" "hd ?LW" "last ?LS"] h by simp
  have b: "?LS = butlast ?LS @ [last ?LS]" by simp
  have "stripped_lines (s @ w)
      = map strip (filter ?nb (butlast ?LS)) @ map strip (filter ?nb [last ?LS @ hd ?LW])"
    unfolding stripped_lines_def a using t by simp
  also have "\<dots> = map strip (filter ?nb (butlast ?LS)) @ map strip (filter ?nb [last ?LS])"
    using s by simp
  also have "\<dots> = map strip (filter ?nb (butlast ?LS @ [last ?LS]))"
    by (simp only: filter_append map_append)
  also have "\<dots> = stripped_lines s"
    unfolding stripped_lines_def by (simp only: b[symmetric])
  finally show ?thesis .
qed

lemma stripped_lines_strip: "stripped_lines (strip s) = stripped_lines s"
proof -
  obtain w1 w2 where s: "s = w1 @ strip s @ w2" and w: "list_all isspace w1" "list_all isspace w2"
    using strip_decomp by blast
  have "stripped_lines (w1 @ (strip s @ w2)) = stripped_lines (strip s @ w2)"
    using w(1) by (rule stripped_lines_space_prefix)
  also have "\<dots> = stripped_lines (strip s)"
    using w(2) by (rule stripped_lines_space_suffix)
  finally show ?thesis using s by simp
qed

lemma stripped_lines_join:
  assumes "\<forall>l\<in>set xs. NL \<notin> set l"
  shows "stripped_lines (join_nl xs) = map strip (filter (\<lambda>line. strip line \<noteq> []) xs)"
proof (cases "xs = []")
  case True
  then show ?thesis by (simp add: stripped_lines_def split_nl_def split_on_def)
next
  case False
  then show ?thesis using assms by (simp add: stripped_lines_def split_join)
qed

lemma section_lines_subset:
  "set (section_lines U markdown section_name) \<subseteq> set (split_nl markdown)"
  by (auto simp: section_lines_def slice_def Let_def split: option.splits
      dest!: in_set_dropD in_set_takeD)

lemma section_lines_no_NL: "\<forall>l\<in>set (section_lines U markdown section_name). NL \<notin> set l"
  using section_lines_subset[of U markdown section_name] split_nl_lines_no_NL[of _ markdown]
  by blast

lemma list_ex_stripped:
  assumes "\<And>x. Q x \<Longrightarrow> x \<noteq> []"
  shows "list_ex (\<lambda>l. Q (strip l)) (split_nl s) \<longleftrightarrow> (\<exists>x\<in>set (stripped_lines s). Q x)"
  using assms by (auto simp: list_ex_iff stripped_lines_def)

lemma startswith_marker_ne: "startswith x (u ''* '') \<Longrightarrow> x \<noteq> []"
  by (auto simp: startswith_def u_def)

lemma bullet_duplicate_strip:
  "bullet_duplicate U sec (split_nl (strip s)) \<longleftrightarrow> bullet_duplicate U sec (split_nl s)"
proof -
  define Q where "Q x \<longleftrightarrow> startswith x (u ''* '') \<and>
      list_ex (\<lambda>line. is_bullet line \<and> item_duplicate U (item_of x) (item_of (strip line))) sec"
    for x
  have ne: "\<And>x. Q x \<Longrightarrow> x \<noteq> []"
    by (simp add: Q_def startswith_marker_ne)
  have b: "bullet_duplicate U sec ls \<longleftrightarrow> list_ex (\<lambda>l. Q (strip l)) ls" for ls
    by (simp add: bullet_duplicate_def Q_def is_bullet_def)
  have "list_ex (\<lambda>l. Q (strip l)) (split_nl (strip s))
      \<longleftrightarrow> (\<exists>x\<in>set (stripped_lines (strip s)). Q x)"
    using ne by (rule list_ex_stripped)
  also have "\<dots> \<longleftrightarrow> (\<exists>x\<in>set (stripped_lines s). Q x)"
    by (simp only: stripped_lines_strip)
  also have "\<dots> \<longleftrightarrow> list_ex (\<lambda>l. Q (strip l)) (split_nl s)"
    using ne by (rule list_ex_stripped[symmetric])
  finally show ?thesis
    unfolding b .
qed

lemma prose_duplicate_iff:
  assumes "\<forall>l\<in>set sec. NL \<notin> set l"
  shows "prose_duplicate (strip (join_nl sec)) (strip s) \<longleftrightarrow> prose_line_match sec (split_nl s)"
proof -
  have e: "stripped_lines (join_nl sec) = map strip (filter (\<lambda>line. strip line \<noteq> []) sec)"
    using assms by (rule stripped_lines_join)
  have "prose_duplicate (strip (join_nl sec)) (strip s) \<longleftrightarrow>
      (\<exists>x\<in>set (stripped_lines s). x \<in> set (map strip (filter (\<lambda>line. strip line \<noteq> []) sec)))"
    by (simp add: prose_duplicate_def e stripped_lines_strip list_ex_iff)
  also have "\<dots> \<longleftrightarrow> prose_line_match sec (split_nl s)"
    by (auto simp: prose_line_match_def stripped_lines_def list_ex_iff blank_def)
  finally show ?thesis .
qed

lemma is_duplicate_iff:
  assumes "\<forall>l\<in>set sec. NL \<notin> set l"
  shows "is_duplicate U sec new_content \<longleftrightarrow>
     contains (strip (join_nl sec)) (strip new_content) \<or>
     (if startswith (strip new_content) (u ''* '')
      then bullet_duplicate U sec (split_nl new_content)
      else prose_line_match sec (split_nl new_content))"
  by (simp add: is_duplicate_def Let_def bullet_duplicate_strip prose_duplicate_iff[OF assms])

lemma section_last:
  assumes "first_index (header_named U section_name) (split_nl markdown) = Some i"
  shows "(target_end U markdown section_name > i + 1 \<and>
          strip (split_nl markdown ! (target_end U markdown section_name - 1)) \<noteq> [])
     \<longleftrightarrow> (section_lines U markdown section_name \<noteq> [] \<and>
          \<not> blank (last (section_lines U markdown section_name)))"
proof -
  let ?L = "split_nl markdown"
  let ?e = "target_end U markdown section_name"
  have e: "?e = find_section_end ?L (i + 1)"
    using assms by (simp add: target_end_def Let_def)
  have il: "i < length ?L" using first_index_Some[OF assms] by simp
  have b: "i + 1 \<le> ?e" "?e \<le> length ?L"
    using find_section_end_bounds[OF il] e by auto
  have s: "section_lines U markdown section_name = drop (i + 1) (take ?e ?L)"
    using assms by (simp add: section_lines_def target_end_def slice_def Let_def)
  show ?thesis
  proof (cases "?e > i + 1")
    case True
    then have n: "drop (i + 1) (take ?e ?L) \<noteq> []" using b by simp
    have lt: "i + 1 < length (take ?e ?L)" using True b by simp
    have "last (drop (i + 1) (take ?e ?L)) = last (take ?e ?L)"
      using lt by (rule last_drop)
    also have "\<dots> = ?L ! (?e - 1)"
    proof -
      have "take ?e ?L \<noteq> []" using lt by auto
      then have "last (take ?e ?L) = take ?e ?L ! (length (take ?e ?L) - 1)"
        by (rule last_conv_nth)
      also have "length (take ?e ?L) = ?e" using b by simp
      also have "take ?e ?L ! (?e - 1) = ?L ! (?e - 1)" using True by simp
      finally show ?thesis .
    qed
    finally show ?thesis using True n by (simp add: s blank_def)
  next
    case False
    then show ?thesis using b by (simp add: s)
  qed
qed

lemma merge_present:
  assumes "list_ex (header_named U section_name) (split_nl markdown)"
  shows "apply_patch_to_section U markdown section_name new_content =
     (if contains (strip (join_nl (section_lines U markdown section_name))) (strip new_content)
         \<or> (if startswith (strip new_content) (u ''* '')
             then bullet_duplicate U (section_lines U markdown section_name) (split_nl new_content)
             else prose_line_match (section_lines U markdown section_name) (split_nl new_content))
      then markdown
      else join_nl (take (target_end U markdown section_name) (split_nl markdown)
             @ separator (section_lines U markdown section_name) @ split_nl new_content
             @ drop (target_end U markdown section_name) (split_nl markdown)))"
proof -
  from assms obtain i where i: "first_index (header_named U section_name) (split_nl markdown) = Some i"
    using list_ex_first_index by blast
  let ?sec = "section_lines U markdown section_name"
  let ?dup = "contains (strip (join_nl ?sec)) (strip new_content)
         \<or> (if startswith (strip new_content) (u ''* '')
             then bullet_duplicate U ?sec (split_nl new_content)
             else prose_line_match ?sec (split_nl new_content))"
  have d: "is_duplicate U ?sec new_content \<longleftrightarrow> ?dup"
    by (rule is_duplicate_iff[OF section_lines_no_NL])
  show ?thesis
  proof (cases ?dup)
    case True
    then show ?thesis using apply_patch_present[OF i, of new_content] d by simp
  next
    case False
    then have "strip new_content \<noteq> []" by auto
    then have "appended_lines (split_nl markdown) (i + 1) (target_end U markdown section_name)
          new_content = separator ?sec @ split_nl new_content"
      using section_last[OF i] by (simp add: appended_lines_def separator_def)
    then show ?thesis using apply_patch_present[OF i, of new_content] d False by simp
  qed
qed

lemma merge_accept_changes:
  assumes "list_ex (header_named U section_name) (split_nl markdown)"
    and "X \<noteq> []" and "\<forall>l\<in>set X. NL \<notin> set l"
  shows "join_nl (take (target_end U markdown section_name) (split_nl markdown) @ X
           @ drop (target_end U markdown section_name) (split_nl markdown)) \<noteq> markdown"
proof
  let ?L = "split_nl markdown"
  let ?e = "target_end U markdown section_name"
  assume a: "join_nl (take ?e ?L @ X @ drop ?e ?L) = markdown"
  have "\<forall>l\<in>set (take ?e ?L @ X @ drop ?e ?L). NL \<notin> set l"
  proof
    fix l assume "l \<in> set (take ?e ?L @ X @ drop ?e ?L)"
    then have "l \<in> set ?L \<or> l \<in> set X"
      by (auto dest: in_set_takeD in_set_dropD)
    then show "NL \<notin> set l" using assms(3) split_nl_lines_no_NL[of _ markdown] by blast
  qed
  then have "split_nl (join_nl (take ?e ?L @ X @ drop ?e ?L)) = take ?e ?L @ X @ drop ?e ?L"
    using assms(2) by (intro split_join) simp
  then have "length ?L = length (take ?e ?L @ X @ drop ?e ?L)"
    unfolding a by simp
  also have "\<dots> = length ?L + length X"
    by simp
  finally show False using assms(2) by simp
qed

lemma startswith_strip_marker:
  "startswith (strip s) (u ''* '') \<longleftrightarrow>
     (\<exists>rest. dropWhile isspace s = u ''* '' @ rest \<and> \<not> list_all isspace rest)"
proof
  assume a: "startswith (strip s) (u ''* '')"
  then obtain r where r: "strip s = u ''* '' @ r"
    by (auto simp: startswith_def prefix_def)
  obtain w1 w2 where s: "s = w1 @ strip s @ w2" and w: "list_all isspace w1" "list_all isspace w2"
    using strip_decomp by blast
  have ne: "strip s \<noteq> []" using r by (simp add: u_def)
  have t: "trimmed isspace (strip s)" by simp
  then have h: "\<not> isspace (hd (strip s))" and l: "\<not> isspace (last (strip s))"
    using ne by (auto simp: trimmed_def)
  have "dropWhile isspace (w1 @ (strip s @ w2)) = dropWhile isspace (strip s @ w2)"
    using w(1) by (rule dropWhile_all)
  also have "\<dots> = strip s @ w2"
    using ne h by (intro dropWhile_hd_id) auto
  finally have d: "dropWhile isspace s = u ''* '' @ (r @ w2)"
    using s r by simp
  have "r \<noteq> []"
  proof
    assume "r = []"
    then have "last (strip s) = 32" using r by (simp add: u_def)
    then show False using l by (simp add: isspace_def)
  qed
  then have "last r = last (strip s)" using r by simp
  then have "\<not> isspace (last r)" using l by simp
  then have "\<not> list_all isspace (r @ w2)"
    using \<open>r \<noteq> []\<close> by (auto simp: list_all_iff)
  with d show "\<exists>rest. dropWhile isspace s = u ''* '' @ rest \<and> \<not> list_all isspace rest"
    by blast
next
  assume "\<exists>rest. dropWhile isspace s = u ''* '' @ rest \<and> \<not> list_all isspace rest"
  then obtain rest where d: "dropWhile isspace s = u ''* '' @ rest" and n: "\<not> list_all isspace rest"
    by blast
  have "dropWhile isspace (rev (u ''* '' @ rest)) = dropWhile isspace (rev rest) @ rev (u ''* '')"
    using n by (simp add: dropWhile_not_all)
  then have "strip s = u ''* '' @ rev (dropWhile isspace (rev rest))"
    unfolding strip_def d by simp
  then show "startswith (strip s) (u ''* '')"
    by (simp add: startswith_def)
qed






lemma first_index_here:
  "\<not> list_ex p A \<Longrightarrow> p h \<Longrightarrow> first_index p (A @ h # B) = Some (length A)"
  by (simp add: first_index_append_None)

lemma first_index_split:
  assumes "first_index p xs = Some k"
  shows "xs = take k xs @ xs ! k # drop (k + 1) xs \<and> \<not> list_ex p (take k xs) \<and> p (xs ! k)"
proof -
  from first_index_Some[OF assms]
  have k: "k < length xs" and p: "p (xs ! k)" and n: "\<forall>j<k. \<not> p (xs ! j)"
    by auto
  have "\<not> list_ex p (take k xs)"
    using n k by (auto simp: list_ex_iff in_set_conv_nth)
  then show ?thesis
    using k p by (simp add: id_take_nth_drop[symmetric])
qed

lemma section_compose:
  assumes "split_nl D = A @ h # S @ T"
    and "\<not> list_ex (header_named U n) A" and "header_named U n h"
    and "\<not> list_ex any_header S" and "T = [] \<or> any_header (hd T)"
  shows "section_lines U D n = S \<and> list_ex (header_named U n) (split_nl D)"
proof -
  have i: "first_index (header_named U n) (split_nl D) = Some (length A)"
    unfolding assms(1) using assms(2,3) by (rule first_index_here)
  have d: "drop (length A + 1) (A @ h # S @ T) = S @ T"
    by simp
  have s: "slice (A @ h # S @ T) (length A + 1) (find_section_end (A @ h # S @ T) (length A + 1)) = S"
  proof (cases T)
    case Nil
    then have "first_index any_header (S @ T) = None"
      using assms(4) by (simp add: first_index_None)
    then have "find_section_end (A @ h # S @ T) (length A + 1) = length (A @ h # S @ T)"
      unfolding find_section_end_def d by simp
    then show ?thesis using Nil by (simp add: slice_def)
  next
    case (Cons t ts)
    then have "any_header t" using assms(5) by simp
    then have "first_index any_header (S @ t # ts) = Some (length S)"
      using assms(4) by (intro first_index_here)
    then have "find_section_end (A @ h # S @ T) (length A + 1) = length A + 1 + length S"
      unfolding find_section_end_def d Cons by simp
    then show ?thesis by (simp add: slice_def)
  qed
  have "section_lines U D n = S"
    unfolding section_lines_def Let_def i option.case assms(1)[symmetric]
    using s unfolding assms(1) .
  moreover have "list_ex (header_named U n) (split_nl D)"
    using i first_index_None[of "header_named U n" "split_nl D"] by auto
  ultimately show ?thesis by blast
qed

lemma section_decomp:
  assumes "first_index (header_named U n) (split_nl D) = Some i"
  shows "\<exists>A h T. split_nl D = A @ h # section_lines U D n @ T
      \<and> \<not> list_ex (header_named U n) A \<and> header_named U n h
      \<and> \<not> list_ex any_header (section_lines U D n)
      \<and> (T = [] \<or> any_header (hd T))
      \<and> take (target_end U D n) (split_nl D) = A @ h # section_lines U D n
      \<and> drop (target_end U D n) (split_nl D) = T"
proof -
  let ?L = "split_nl D"
  let ?M = "drop (i + 1) ?L"
  from first_index_split[OF assms]
  have L: "?L = take i ?L @ ?L ! i # ?M"
    and nA: "\<not> list_ex (header_named U n) (take i ?L)" and h: "header_named U n (?L ! i)"
    by auto
  have il: "i < length ?L" using first_index_Some[OF assms] by simp
  have la: "length (take i ?L) = i" using il by simp
  show ?thesis
  proof (cases "first_index any_header ?M")
    case None
    then have e: "target_end U D n = length ?L"
      using assms by (simp add: target_end_def find_section_end_def Let_def)
    have s: "section_lines U D n = ?M"
      using assms None by (simp add: section_lines_def find_section_end_def Let_def slice_def)
    have nh: "\<not> list_ex any_header (section_lines U D n)"
      unfolding s using None by (simp add: first_index_None)
    have "?L = take i ?L @ ?L ! i # section_lines U D n @ []"
      using L s by simp
    moreover have "take (target_end U D n) ?L = take i ?L @ ?L ! i # section_lines U D n"
      using L s e by simp
    moreover have "drop (target_end U D n) ?L = []"
      using e by simp
    ultimately show ?thesis using nA h nh by blast
  next
    case (Some k)
    from first_index_split[OF Some]
    have M: "?M = take k ?M @ ?M ! k # drop (k + 1) ?M"
      and nS: "\<not> list_ex any_header (take k ?M)" and t: "any_header (?M ! k)"
      by auto
    have kl: "k < length ?M" using first_index_Some[OF Some] by simp
    have e: "target_end U D n = i + 1 + k"
      using assms Some by (simp add: target_end_def find_section_end_def Let_def)
    have s: "section_lines U D n = take k ?M"
      using assms Some
      by (simp add: section_lines_def find_section_end_def Let_def slice_def drop_take)
    define T where "T = ?M ! k # drop (k + 1) ?M"
    have M': "?M = section_lines U D n @ T" using M s T_def by simp
    have 1: "?L = take i ?L @ ?L ! i # section_lines U D n @ T"
      using L M' by simp
    have ls: "length (section_lines U D n) = k" using s kl by simp
    have "take (i + 1 + k) (take i ?L @ ?L ! i # section_lines U D n @ T)
        = take i ?L @ ?L ! i # section_lines U D n"
      using la ls by simp
    then have 2: "take (target_end U D n) ?L = take i ?L @ ?L ! i # section_lines U D n"
      unfolding e using 1 by simp
    have "drop (i + 1 + k) (take i ?L @ ?L ! i # section_lines U D n @ T) = T"
      using la ls by simp
    then have 3: "drop (target_end U D n) ?L = T"
      unfolding e using 1 by simp
    have 4: "T = [] \<or> any_header (hd T)" using t by (simp add: T_def)
    have 5: "\<not> list_ex any_header (section_lines U D n)" using nS s by simp
    show ?thesis using 1 2 3 4 5 nA h by blast
  qed
qed

lemma join_nl_suffix: "ys \<noteq> [] \<Longrightarrow> \<exists>pre. join_nl (xs @ ys) = pre @ join_nl ys"
proof (cases "xs = []")
  case True
  then show ?thesis by simp
next
  case False
  assume "ys \<noteq> []"
  with False have "join_nl (xs @ ys) = (join_nl xs @ [NL]) @ join_nl ys"
    by (simp add: join_nl_append)
  then show ?thesis by blast
qed

lemma reapply_contained:
  assumes "list_ex (header_named U n) (split_nl D)"
    and "section_lines U D n = pre @ split_nl P"
  shows "apply_patch_to_section U D n P = D"
proof -
  obtain q where "join_nl (pre @ split_nl P) = q @ join_nl (split_nl P)"
    using join_nl_suffix[of "split_nl P" pre] by auto
  then have "sublist P (join_nl (section_lines U D n))"
    unfolding assms(2) by (simp add: sublist_def) (metis append_Nil2)
  moreover have "sublist (strip P) P" by (rule sublist_strip_self)
  ultimately have "sublist (strip P) (join_nl (section_lines U D n))"
    by (rule sublist_order.order_trans[rotated])
  then have "sublist (strip P) (strip (join_nl (section_lines U D n)))"
    by (rule sublist_trimmed_strip) simp
  then show ?thesis
    by (simp add: merge_present[OF assms(1)] contains_def)
qed

section \<open>Merging into an existing section: patches that are already present\<close>

text \<open>
  C10. When the target section exists and the patch content is empty or consists of white
  space only, the merge returns the document text unchanged: the stripped content is the
  empty string, which is contained in every string.
\<close>

theorem blank_patch_unchanged:
  assumes "list_ex (header_named U section_name) (split_nl markdown)"
    and "list_all isspace new_content"
  shows "apply_patch_to_section U markdown section_name new_content = markdown"
proof -
  from assms(1) obtain i where "first_index (header_named U section_name) (split_nl markdown) = Some i"
    using list_ex_first_index by blast
  then show ?thesis
    using assms(2) by (simp add: apply_patch_to_section_def Let_def strip_all_space)
qed

theorem blank_patch_unchanged_witness:
  "list_ex (header_named ascii_case (u ''setting''))
     (split_nl (u ''# My Project'' @ [NL, NL] @ u ''## Setting'' @ [NL] @ u ''A quiet village.''))
   \<and> list_all isspace [32, 9, NL, 32]
   \<and> apply_patch_to_section ascii_case
         (u ''# My Project'' @ [NL, NL] @ u ''## Setting'' @ [NL] @ u ''A quiet village.'')
         (u ''setting'') [32, 9, NL, 32]
       = u ''# My Project'' @ [NL, NL] @ u ''## Setting'' @ [NL] @ u ''A quiet village.''"
proof -
  have h1: "list_ex (header_named ascii_case (u ''setting''))
     (split_nl (u ''# My Project'' @ [NL, NL] @ u ''## Setting'' @ [NL] @ u ''A quiet village.''))"
    by code_simp
  have h2: "list_all isspace [32, 9, NL, 32]"
    by code_simp
  show ?thesis
    using h1 h2 blank_patch_unchanged[OF h1 h2] by simp
qed

text \<open>
  The test of the source: the stripped patch content occurs in the stripped text of the
  section's lines.
\<close>

lemma containment_unchanged:
  assumes "first_index (header_named U section_name) (split_nl markdown) = Some i"
    and "contains
           (strip (join_nl (slice (split_nl markdown) (i + 1)
                              (find_section_end (split_nl markdown) (i + 1)))))
           (strip new_content)"
  shows "apply_patch_to_section U markdown section_name new_content = markdown"
  using assms by (simp add: apply_patch_to_section_def Let_def)

text \<open>
  C2. When the target section exists and the patch content, without its leading and trailing
  blank lines, is a contiguous part of the section's content normalised in the same way
  (the text \<open>extract_section\<close> returns), the merge returns the document text unchanged.
  The comparison is on the whole text: the hypothesis implies the test of the source, which
  strips white space at both ends of the two texts.
\<close>

theorem exact_containment_unchanged:
  assumes "list_ex (header_named U section_name) (split_nl markdown)"
    and "contains (extract_section U markdown section_name)
           (join_nl (pop_blank_ends (split_nl new_content)))"
  shows "apply_patch_to_section U markdown section_name new_content = markdown"
proof -
  from assms(1) obtain i where i: "first_index (header_named U section_name) (split_nl markdown) = Some i"
    using list_ex_first_index by blast
  let ?sec = "slice (split_nl markdown) (i + 1) (find_section_end (split_nl markdown) (i + 1))"
  let ?inc = "join_nl (pop_blank_ends (split_nl new_content))"
  have ex: "extract_section U markdown section_name = join_nl (pop_blank_ends ?sec)"
    using i by (simp add: extract_section_def Let_def)
  have n: "strip ?inc = strip new_content"
    using strip_join_pop[of "split_nl new_content"] by simp
  have "sublist (strip ?inc) ?inc" by (rule sublist_strip_self)
  then have "sublist (strip new_content) (join_nl (pop_blank_ends ?sec))"
    using assms(2) n ex by (metis contains_def sublist_order.order_trans)
  then have "sublist (strip new_content) (strip (join_nl (pop_blank_ends ?sec)))"
    using n by (intro sublist_trimmed_strip) (metis trimmed_strip, metis trimmed_strip)
  then have "contains (strip (join_nl ?sec)) (strip new_content)"
    by (simp add: contains_def strip_join_pop)
  with i show ?thesis by (rule containment_unchanged)
qed

theorem exact_containment_unchanged_witness:
  "list_ex (header_named ascii_case (u ''Characters'')) (split_nl characters_doc)
   \<and> contains (extract_section ascii_case characters_doc (u ''Characters''))
         (join_nl (pop_blank_ends (split_nl ([NL] @ max_line @ [NL]))))
   \<and> apply_patch_to_section ascii_case characters_doc (u ''Characters'') ([NL] @ max_line @ [NL])
       = characters_doc"
proof -
  have h1: "list_ex (header_named ascii_case (u ''Characters'')) (split_nl characters_doc)"
    by code_simp
  have h2: "contains (extract_section ascii_case characters_doc (u ''Characters''))
         (join_nl (pop_blank_ends (split_nl ([NL] @ max_line @ [NL]))))"
    by code_simp
  show ?thesis
    using h1 h2 exact_containment_unchanged[OF h1 h2] by simp
qed

section \<open>Creating an absent section\<close>

text \<open>
  C6. When no line of the document is a level-2 header of the target name (compared without
  regard to case), the merge appends to the lines of the document: an empty line if the last
  line of the document is not blank, the line \<open>## name\<close> with the name as given, an empty
  line, and the lines of the patch content as they are. The second equation gives the same
  result as text. When moreover the name holds no line break and no line of the patch
  content is itself a level-2 header, the document gains exactly one header, the last one,
  and the content of the new section, as \<open>extract_section\<close> returns it, is the patch
  content without its leading and trailing blank lines.
\<close>

theorem absent_section_created:
  assumes "\<not> list_ex (header_named U section_name) (split_nl markdown)"
  shows "apply_patch_to_section U markdown section_name new_content =
           join_nl (split_nl markdown
                    @ (if strip (last (split_nl markdown)) \<noteq> [] then [[]] else [])
                    @ [u ''## '' @ section_name, []]
                    @ split_nl new_content)
         \<and> apply_patch_to_section U markdown section_name new_content =
           markdown @ (if strip (last (split_nl markdown)) \<noteq> [] then [NL] else [])
             @ [NL] @ u ''## '' @ section_name @ [NL, NL] @ new_content
         \<and> (NL \<notin> set section_name \<and> \<not> list_ex any_header (split_nl new_content) \<longrightarrow>
              headers (apply_patch_to_section U markdown section_name new_content)
                = headers markdown @ [u ''## '' @ section_name]
              \<and> extract_section U (apply_patch_to_section U markdown section_name new_content)
                  section_name
                = join_nl (pop_blank_ends (split_nl new_content)))"
proof -
  let ?lines = "split_nl markdown"
  let ?sep = "(if strip (last ?lines) \<noteq> [] then [[]] else []) :: ustr list"
  let ?hdr = "u ''## '' @ section_name"
  let ?R = "?lines @ ?sep @ [?hdr, []] @ split_nl new_content"
  have none: "first_index (header_named U section_name) ?lines = None"
    using assms by (simp add: first_index_None)
  have r: "apply_patch_to_section U markdown section_name new_content = join_nl ?R"
    using none by (simp add: apply_patch_to_section_def Let_def)
  have tail: "join_nl ([?hdr, []] @ split_nl new_content)
      = u ''## '' @ section_name @ [NL, NL] @ new_content"
    by (simp add: join_nl_Cons)
  have t: "join_nl ?R
      = markdown @ (if strip (last ?lines) \<noteq> [] then [NL] else [])
          @ [NL] @ u ''## '' @ section_name @ [NL, NL] @ new_content"
  proof (cases "strip (last ?lines) \<noteq> []")
    case True
    then have "join_nl ?R
       = join_nl ?lines @ NL # join_nl ([] # ([?hdr, []] @ split_nl new_content))"
      by (simp add: join_nl_append)
    also have "\<dots> = markdown @ NL # NL # join_nl ([?hdr, []] @ split_nl new_content)"
      by (simp add: join_nl_Cons)
    finally show ?thesis using True tail by simp
  next
    case False
    then have "join_nl ?R
       = join_nl ?lines @ NL # join_nl ([?hdr, []] @ split_nl new_content)"
      by (simp add: join_nl_append)
    then show ?thesis using False tail by simp
  qed
  have third: "headers (join_nl ?R) = headers markdown @ [?hdr]
      \<and> extract_section U (join_nl ?R) section_name
          = join_nl (pop_blank_ends (split_nl new_content))"
    if n: "NL \<notin> set section_name" and p: "\<not> list_ex any_header (split_nl new_content)"
  proof -
    define R where "R = ?R"
    define k where "k = length ?lines + length ?sep"
    have nl: "\<forall>l\<in>set R. NL \<notin> set l"
      using split_nl_lines_no_NL[of _ markdown] split_nl_lines_no_NL[of _ new_content] n
        NL_notin_marker by (auto simp: R_def)
    have s: "split_nl (join_nl R) = R"
      using nl by (intro split_join) (simp_all add: R_def)
    have f: "filter any_header (split_nl new_content) = []"
      using p by (simp add: list_ex_iff filter_empty_conv)
    have h: "headers (join_nl R) = headers markdown @ [?hdr]"
      unfolding headers_def s using f by (simp add: R_def any_header_own any_header_Nil)
    have ns: "\<not> list_ex (header_named U section_name) (?lines @ ?sep)"
      using assms by (simp add: header_named_Nil)
    have "first_index (header_named U section_name) ((?lines @ ?sep) @ ?hdr # [] # split_nl new_content)
        = Some k"
      unfolding first_index_append_None[OF ns] by (simp add: header_named_own k_def)
    then have i: "first_index (header_named U section_name) R = Some k"
      by (simp add: R_def)
    have d: "drop (k + 1) R = [] # split_nl new_content"
      by (simp add: R_def k_def)
    have "first_index any_header ([] # split_nl new_content) = None"
      using p by (simp add: first_index_None any_header_Nil)
    then have e: "find_section_end R (k + 1) = length R"
      unfolding find_section_end_def d by simp
    have sl: "slice R (k + 1) (length R) = [] # split_nl new_content"
      unfolding slice_def using d by simp
    have "extract_section U (join_nl R) section_name
        = join_nl (pop_blank_ends ([] # split_nl new_content))"
      by (simp only: extract_section_def s Let_def i option.case e sl)
    with h show ?thesis by (simp add: pop_blank_ends_Cons_Nil R_def)
  qed
  show ?thesis
    unfolding r using t third by blast
qed

theorem absent_section_created_witness:
  "\<not> list_ex (header_named ascii_case (u ''Ideas-Notes'')) (split_nl project_doc)
   \<and> NL \<notin> set (u ''Ideas-Notes'')
   \<and> \<not> list_ex any_header (split_nl (u ''A talking cat appears.''))
   \<and> apply_patch_to_section ascii_case project_doc (u ''Ideas-Notes'')
        (u ''A talking cat appears.'')
     = project_doc @ [NL, NL] @ u ''## '' @ u ''Ideas-Notes'' @ [NL, NL]
         @ u ''A talking cat appears.''
   \<and> headers (apply_patch_to_section ascii_case project_doc (u ''Ideas-Notes'')
        (u ''A talking cat appears.''))
     = headers project_doc @ [u ''## '' @ u ''Ideas-Notes'']
   \<and> extract_section ascii_case
        (apply_patch_to_section ascii_case project_doc (u ''Ideas-Notes'')
           (u ''A talking cat appears.''))
        (u ''Ideas-Notes'')
     = u ''A talking cat appears.''"
proof -
  have h: "\<not> list_ex (header_named ascii_case (u ''Ideas-Notes'')) (split_nl project_doc)"
    by code_simp
  have n: "NL \<notin> set (u ''Ideas-Notes'')"
    by code_simp
  have p: "\<not> list_ex any_header (split_nl (u ''A talking cat appears.''))"
    by code_simp
  have s: "strip (last (split_nl project_doc)) \<noteq> []"
    by code_simp
  have j: "join_nl (pop_blank_ends (split_nl (u ''A talking cat appears.'')))
      = u ''A talking cat appears.''"
    by code_simp
  note T = absent_section_created[OF h, of "u ''A talking cat appears.''"]
  have a: "apply_patch_to_section ascii_case project_doc (u ''Ideas-Notes'')
        (u ''A talking cat appears.'')
     = project_doc @ [NL, NL] @ u ''## '' @ u ''Ideas-Notes'' @ [NL, NL]
         @ u ''A talking cat appears.''"
    using T[THEN conjunct2, THEN conjunct1] s by simp
  have b: "headers (apply_patch_to_section ascii_case project_doc (u ''Ideas-Notes'')
        (u ''A talking cat appears.''))
     = headers project_doc @ [u ''## '' @ u ''Ideas-Notes'']
   \<and> extract_section ascii_case
        (apply_patch_to_section ascii_case project_doc (u ''Ideas-Notes'')
           (u ''A talking cat appears.''))
        (u ''Ideas-Notes'')
     = join_nl (pop_blank_ends (split_nl (u ''A talking cat appears.'')))"
    using T[THEN conjunct2, THEN conjunct2] n p by blast
  show ?thesis
    using h n p a b unfolding j by blast
qed

text \<open>
  Without the two conditions the new section need not be the only one, nor the last: a patch
  content holding a header line adds two headers, the new section of the target name is
  empty and the trailing section is that of the patch content.
\<close>

theorem absent_section_with_header_in_patch:
  "\<not> list_ex (header_named ascii_case (u ''Ideas'')) (split_nl setting_doc)
   \<and> apply_patch_to_section ascii_case setting_doc (u ''Ideas'')
        (u ''## Plot'' @ [NL] @ u ''A storm.'')
     = setting_doc @ [NL, NL] @ u ''## Ideas'' @ [NL, NL] @ u ''## Plot'' @ [NL] @ u ''A storm.''
   \<and> headers setting_doc = [u ''## Setting'']
   \<and> headers (apply_patch_to_section ascii_case setting_doc (u ''Ideas'')
        (u ''## Plot'' @ [NL] @ u ''A storm.''))
     = [u ''## Setting'', u ''## Ideas'', u ''## Plot'']
   \<and> extract_section ascii_case
        (apply_patch_to_section ascii_case setting_doc (u ''Ideas'')
           (u ''## Plot'' @ [NL] @ u ''A storm.''))
        (u ''Ideas'')
     = []"
  by code_simp

section \<open>Extracting a section\<close>

text \<open>
  C8. \<open>extract_section\<close> looks the name up without regard to case: two names that are case
  variants of each other, code point by code point, give the same result. When no line is
  a header of the name the result is the empty string. When there is one, the lines of the
  section are some blank lines, then lines \<open>c\<close> that neither begin nor end with a blank line,
  then some blank lines, and the result is the lines \<open>c\<close> joined by line breaks: the blank
  lines inside \<open>c\<close> are kept.
\<close>

theorem extract_section_semantics:
  "(map (ignore_case U) n1 = map (ignore_case U) n2 \<longrightarrow>
      extract_section U markdown n1 = extract_section U markdown n2)
   \<and> (\<not> list_ex (header_named U n0) (split_nl markdown) \<longrightarrow> extract_section U markdown n0 = [])
   \<and> (list_ex (header_named U n) (split_nl markdown) \<longrightarrow>
        (\<exists>a c b. section_lines U markdown n = a @ c @ b
           \<and> list_all blank a \<and> list_all blank b \<and> trimmed blank c
           \<and> extract_section U markdown n = join_nl c))"
proof (intro conjI impI)
  assume a: "map (ignore_case U) n1 = map (ignore_case U) n2"
  then have "length n1 = length n2" by (metis length_map)
  with a have "name_then_spaces U n1 = name_then_spaces U n2"
    by (intro ext) (simp add: name_then_spaces_def)
  then have "header_named U n1 = header_named U n2"
    by (intro ext) (simp only: header_named_def)
  then show "extract_section U markdown n1 = extract_section U markdown n2"
    by (simp only: extract_section_def)
next
  assume "\<not> list_ex (header_named U n0) (split_nl markdown)"
  then show "extract_section U markdown n0 = []"
    by (simp add: extract_section_def first_index_None[symmetric])
next
  assume "list_ex (header_named U n) (split_nl markdown)"
  then obtain i where i: "first_index (header_named U n) (split_nl markdown) = Some i"
    using list_ex_first_index by blast
  let ?sec = "section_lines U markdown n"
  obtain a b where "?sec = a @ pop_blank_ends ?sec @ b" "list_all blank a" "list_all blank b"
    using trim_decomp[of ?sec blank] by (auto simp: pop_blank_ends_trim)
  moreover have "trimmed blank (pop_blank_ends ?sec)"
    by (simp add: pop_blank_ends_trim)
  moreover have "extract_section U markdown n = join_nl (pop_blank_ends ?sec)"
    using i by (simp add: extract_section_def section_lines_def Let_def)
  ultimately show "\<exists>a c b. ?sec = a @ c @ b
           \<and> list_all blank a \<and> list_all blank b \<and> trimmed blank c
           \<and> extract_section U markdown n = join_nl c"
    by blast
qed

theorem extract_section_semantics_witness:
  "map (ignore_case ascii_case) (u ''notes'') = map (ignore_case ascii_case) (u ''NOTES'')
   \<and> \<not> list_ex (header_named ascii_case (u ''Ideas'')) (split_nl notes_doc)
   \<and> list_ex (header_named ascii_case (u ''notes'')) (split_nl notes_doc)
   \<and> extract_section ascii_case notes_doc (u ''notes'')
       = extract_section ascii_case notes_doc (u ''NOTES'')
   \<and> extract_section ascii_case notes_doc (u ''Ideas'') = []
   \<and> (\<exists>a c b. section_lines ascii_case notes_doc (u ''notes'') = a @ c @ b
         \<and> list_all blank a \<and> list_all blank b \<and> trimmed blank c
         \<and> extract_section ascii_case notes_doc (u ''notes'') = join_nl c)
   \<and> section_lines ascii_case notes_doc (u ''notes'') = [[32], u ''a'', [], u ''b'', [9]]
   \<and> extract_section ascii_case notes_doc (u ''notes'') = u ''a'' @ [NL, NL] @ u ''b''"
proof -
  have h1: "map (ignore_case ascii_case) (u ''notes'') = map (ignore_case ascii_case) (u ''NOTES'')"
    by code_simp
  have h2: "\<not> list_ex (header_named ascii_case (u ''Ideas'')) (split_nl notes_doc)"
    by code_simp
  have h3: "list_ex (header_named ascii_case (u ''notes'')) (split_nl notes_doc)"
    by code_simp
  have v1: "section_lines ascii_case notes_doc (u ''notes'') = [[32], u ''a'', [], u ''b'', [9]]"
    by code_simp
  have v2: "extract_section ascii_case notes_doc (u ''notes'') = u ''a'' @ [NL, NL] @ u ''b''"
    by code_simp
  show ?thesis
    using h1 h2 h3 v1 v2
      extract_section_semantics[where U = ascii_case and ?n1.0 = "u ''notes''"
        and ?n2.0 = "u ''NOTES''" and markdown = notes_doc and ?n0.0 = "u ''Ideas''"
        and n = "u ''notes''"]
    by blast
qed

text \<open>
  A case conversion that changes the number of code points gives another name: the section
  headed by U+0130 is found under that name and not under its lower-case form, which has
  two code points.
\<close>

theorem lower_cased_name_not_found:
  "lower dotted_case [304] = lower dotted_case [105, 775]
   \<and> extract_section dotted_case (u ''## '' @ [304, NL] @ u ''x'') [304] = u ''x''
   \<and> extract_section dotted_case (u ''## '' @ [304, NL] @ u ''x'') [105, 775] = []"
  by code_simp

section \<open>The lines outside the target section\<close>

text \<open>
  C7. Whatever the document, the name and the patch content, the lines of the result are the
  lines of the document up to the end of the target section, then the lines the merge
  inserts (none when the patch is rejected), then the lines of the document after the target
  section: every line of the document is kept as it is and in its place. When the document
  has no section of that name, the end of the target section is the end of the document.
\<close>

theorem merge_frame:
  "\<exists>ins. split_nl (apply_patch_to_section U markdown section_name new_content)
          = take (target_end U markdown section_name) (split_nl markdown) @ ins
            @ drop (target_end U markdown section_name) (split_nl markdown)"
proof (cases "first_index (header_named U section_name) (split_nl markdown)")
  case None
  let ?L = "split_nl markdown"
  let ?X = "(if ?L \<noteq> [] \<and> strip (last ?L) \<noteq> [] then [[]] else [])
             @ [u ''## '' @ section_name, []] @ split_nl new_content"
  have e: "target_end U markdown section_name = length ?L"
    using None by (simp add: target_end_def)
  have "apply_patch_to_section U markdown section_name new_content = join_nl (?L @ ?X)"
    using None by (simp add: apply_patch_to_section_def)
  moreover have "split_nl (join_nl (?L @ ?X)) = ?L @ split_nl (join_nl ?X)"
    using split_nl_lines_no_NL[of _ markdown] by (intro split_join_append) auto
  ultimately show ?thesis
    unfolding e by (intro exI[of _ "split_nl (join_nl ?X)"]) simp
next
  case (Some i)
  let ?L = "split_nl markdown"
  let ?e = "target_end U markdown section_name"
  have e: "?e = find_section_end ?L (i + 1)"
    using Some by (simp add: target_end_def)
  have il: "i < length ?L" using first_index_Some[OF Some] by simp
  have b: "i + 1 \<le> ?e" "?e \<le> length ?L"
    using find_section_end_bounds[OF il] e by auto
  show ?thesis
  proof (cases "apply_patch_to_section U markdown section_name new_content = markdown")
    case True
    show ?thesis
      unfolding True by (intro exI[of _ "[]"]) simp
  next
    case False
    let ?A = "appended_lines ?L (i + 1) ?e new_content"
    have r: "apply_patch_to_section U markdown section_name new_content
        = join_nl (take ?e ?L @ ?A @ drop ?e ?L)"
      using False apply_patch_present[OF Some, of new_content] by (auto split: if_splits)
    have ne: "take ?e ?L @ ?A @ drop ?e ?L \<noteq> []"
      using b il by auto
    have nA: "\<forall>l\<in>set ?A. NL \<notin> set l"
      using split_nl_lines_no_NL[of _ new_content] by (auto simp: appended_lines_def)
    have nL: "\<forall>l\<in>set ?L. NL \<notin> set l"
      using split_nl_lines_no_NL[of _ markdown] by blast
    have nl: "\<forall>l\<in>set (take ?e ?L @ ?A @ drop ?e ?L). NL \<notin> set l"
    proof
      fix l assume "l \<in> set (take ?e ?L @ ?A @ drop ?e ?L)"
      then have "l \<in> set ?L \<or> l \<in> set ?A"
        by (auto dest: in_set_takeD in_set_dropD)
      then show "NL \<notin> set l" using nA nL by blast
    qed
    have "split_nl (join_nl (take ?e ?L @ ?A @ drop ?e ?L)) = take ?e ?L @ ?A @ drop ?e ?L"
      using ne nl by (rule split_join)
    then show ?thesis
      unfolding r by blast
  qed
qed

theorem merge_frame_witness:
  "target_end ascii_case story_doc (u ''characters'') = 6
   \<and> apply_patch_to_section ascii_case story_doc (u ''characters'') zara_line \<noteq> story_doc
   \<and> (\<exists>ins. split_nl (apply_patch_to_section ascii_case story_doc (u ''characters'') zara_line)
          = take 6 (split_nl story_doc) @ ins @ drop 6 (split_nl story_doc))"
proof -
  have e: "target_end ascii_case story_doc (u ''characters'') = 6"
    by code_simp
  have c: "apply_patch_to_section ascii_case story_doc (u ''characters'') zara_line \<noteq> story_doc"
    by code_simp
  show ?thesis
    using e c merge_frame[of ascii_case story_doc "u ''characters''" zara_line] by simp
qed

section \<open>The prose branch\<close>



section \<open>The bullet branch\<close>

text \<open>
  C3. When the target section exists and the stripped content begins with the bullet marker:
  if some bullet line of the content and some bullet line of the section have names (the
  item up to the first parenthesis or em-dash, stripped) with the same lower case and the
  name of the incoming one is longer than two code points, the merge returns the document
  unchanged.
\<close>

theorem bullet_name_match_rejects:
  assumes "list_ex (header_named U section_name) (split_nl markdown)"
    and "startswith (strip new_content) (u ''* '')"
    and "new_line \<in> set (split_nl new_content)" and "is_bullet new_line"
    and "line \<in> set (section_lines U markdown section_name)" and "is_bullet line"
    and "name_match U (item_of (strip new_line)) (item_of (strip line))"
  shows "apply_patch_to_section U markdown section_name new_content = markdown"
proof -
  have "item_duplicate U (item_of (strip new_line)) (item_of (strip line))"
    using assms(7) by (simp add: item_duplicate_def)
  then have "bullet_duplicate U (section_lines U markdown section_name) (split_nl new_content)"
    using assms(3-6) by (auto simp: bullet_duplicate_def list_ex_iff)
  then show ?thesis
    using assms(2) by (simp add: merge_present[OF assms(1)])
qed

theorem bullet_name_match_rejects_witness:
  "list_ex (header_named ascii_case (u ''Characters'')) (split_nl characters_doc)
   \<and> startswith (strip max_patch) (u ''* '')
   \<and> max_patch \<in> set (split_nl max_patch) \<and> is_bullet max_patch
   \<and> max_line \<in> set (section_lines ascii_case characters_doc (u ''Characters''))
   \<and> is_bullet max_line
   \<and> name_of (item_of (strip max_patch)) = u ''Max''
   \<and> name_of (item_of (strip max_line)) = u ''Max''
   \<and> name_match ascii_case (item_of (strip max_patch)) (item_of (strip max_line))
   \<and> apply_patch_to_section ascii_case characters_doc (u ''Characters'') max_patch
       = characters_doc"
proof -
  have h1: "list_ex (header_named ascii_case (u ''Characters'')) (split_nl characters_doc)"
    by code_simp
  have h2: "startswith (strip max_patch) (u ''* '')"
    by code_simp
  have h3: "max_patch \<in> set (split_nl max_patch)"
    by code_simp
  have h4: "is_bullet max_patch"
    by code_simp
  have h5: "max_line \<in> set (section_lines ascii_case characters_doc (u ''Characters''))"
    by code_simp
  have h6: "is_bullet max_line"
    by code_simp
  have h7: "name_match ascii_case (item_of (strip max_patch)) (item_of (strip max_line))"
    by code_simp
  have n1: "name_of (item_of (strip max_patch)) = u ''Max''"
    by code_simp
  have n2: "name_of (item_of (strip max_line)) = u ''Max''"
    by code_simp
  show ?thesis
    using h1 h2 h3 h4 h5 h6 h7 n1 n2 bullet_name_match_rejects[OF h1 h2 h3 h4 h5 h6 h7]
    by blast
qed

section \<open>The choice between the two branches\<close>

text \<open>
  C9. The bullet rules are applied exactly when the content begins, after its leading white
  space, with the marker followed by something that is not white space only: the
  indentation of the first non-blank line does not matter. For a content not rejected by
  the containment test, the merge returns the document unchanged exactly when the rules of
  the branch so chosen find a duplicate.
\<close>

theorem bullet_block_classification:
  assumes "list_ex (header_named U section_name) (split_nl markdown)"
    and "\<not> contains (strip (join_nl (section_lines U markdown section_name))) (strip new_content)"
  shows "apply_patch_to_section U markdown section_name new_content = markdown \<longleftrightarrow>
     (if \<exists>rest. dropWhile isspace new_content = u ''* '' @ rest \<and> \<not> list_all isspace rest
      then bullet_duplicate U (section_lines U markdown section_name) (split_nl new_content)
      else prose_line_match (section_lines U markdown section_name) (split_nl new_content))"
proof -
  let ?sec = "section_lines U markdown section_name"
  let ?rule = "if startswith (strip new_content) (u ''* '')
      then bullet_duplicate U ?sec (split_nl new_content)
      else prose_line_match ?sec (split_nl new_content)"
  have n: "\<forall>l\<in>set (separator ?sec @ split_nl new_content). NL \<notin> set l"
    using split_nl_lines_no_NL[of _ new_content] by (auto simp: separator_def)
  have c: "join_nl (take (target_end U markdown section_name) (split_nl markdown)
             @ (separator ?sec @ split_nl new_content)
             @ drop (target_end U markdown section_name) (split_nl markdown)) \<noteq> markdown"
    using assms(1) _ n by (rule merge_accept_changes) simp
  have "apply_patch_to_section U markdown section_name new_content = markdown \<longleftrightarrow> ?rule"
    using assms(2) c by (simp add: merge_present[OF assms(1)])
  then show ?thesis
    by (simp only: startswith_strip_marker)
qed

theorem bullet_block_classification_witness:
  "list_ex (header_named ascii_case (u ''Characters'')) (split_nl characters_doc)
   \<and> \<not> contains (strip (join_nl (section_lines ascii_case characters_doc (u ''Characters''))))
        (strip indented_patch)
   \<and> (\<exists>rest. dropWhile isspace indented_patch = u ''* '' @ rest \<and> \<not> list_all isspace rest)
   \<and> bullet_duplicate ascii_case (section_lines ascii_case characters_doc (u ''Characters''))
        (split_nl indented_patch)
   \<and> apply_patch_to_section ascii_case characters_doc (u ''Characters'') indented_patch
       = characters_doc"
proof -
  have h1: "list_ex (header_named ascii_case (u ''Characters'')) (split_nl characters_doc)"
    by code_simp
  have h2: "\<not> contains (strip (join_nl (section_lines ascii_case characters_doc (u ''Characters''))))
        (strip indented_patch)"
    by code_simp
  have d: "dropWhile isspace indented_patch = u ''* '' @ (u ''Max '' @ [EMDASH] @ u '' hero'')"
    by code_simp
  have n: "\<not> list_all isspace (u ''Max '' @ [EMDASH] @ u '' hero'')"
    by code_simp
  have m: "\<exists>rest. dropWhile isspace indented_patch = u ''* '' @ rest \<and> \<not> list_all isspace rest"
    using d n by blast
  have b: "bullet_duplicate ascii_case (section_lines ascii_case characters_doc (u ''Characters''))
        (split_nl indented_patch)"
    by code_simp
  show ?thesis
    using h1 h2 m b bullet_block_classification[OF h1 h2] by simp
qed

text \<open>
  An indented bullet is a prose block in the wording of the specification; the prose test
  finds no equal line and the containment test fails, yet the patch is rejected, by the
  name rule of the bullet branch.
\<close>

theorem indented_bullet_takes_bullet_rules:
  "\<not> spec_bullet_block indented_patch
   \<and> list_ex (header_named ascii_case (u ''Characters'')) (split_nl characters_doc)
   \<and> \<not> contains (strip (join_nl (section_lines ascii_case characters_doc (u ''Characters''))))
        (strip indented_patch)
   \<and> \<not> prose_line_match (section_lines ascii_case characters_doc (u ''Characters''))
        (split_nl indented_patch)
   \<and> bullet_duplicate ascii_case (section_lines ascii_case characters_doc (u ''Characters''))
        (split_nl indented_patch)
   \<and> apply_patch_to_section ascii_case characters_doc (u ''Characters'') indented_patch
       = characters_doc"
  by code_simp

section \<open>The similarity threshold\<close>



section \<open>Applying a patch twice\<close>

text \<open>
  C1. Applying the same patch a second time gives the result of the first application,
  provided the section name holds no line break and no line of the patch content is a
  level-2 header line. If the first application rejects the patch, nothing has changed; if
  it inserts the content or creates the section, the lines of the target section end with
  the lines of the content, and the containment test rejects the second application.
\<close>

theorem merge_idempotent:
  assumes "NL \<notin> set section_name" and "\<not> list_ex any_header (split_nl new_content)"
  shows "apply_patch_to_section U (apply_patch_to_section U markdown section_name new_content)
           section_name new_content
         = apply_patch_to_section U markdown section_name new_content"
proof (cases "first_index (header_named U section_name) (split_nl markdown)")
  case None
  let ?L = "split_nl markdown"
  let ?sep = "(if ?L \<noteq> [] \<and> strip (last ?L) \<noteq> [] then [[]] else []) :: ustr list"
  let ?hdr = "u ''## '' @ section_name"
  define R where "R = (?L @ ?sep) @ ?hdr # ([] # split_nl new_content) @ []"
  have r: "apply_patch_to_section U markdown section_name new_content = join_nl R"
    using None by (simp add: apply_patch_to_section_def R_def)
  have nl: "\<forall>l\<in>set R. NL \<notin> set l"
    using split_nl_lines_no_NL[of _ markdown] split_nl_lines_no_NL[of _ new_content] assms(1)
      NL_notin_marker by (auto simp: R_def)
  have s: "split_nl (join_nl R) = (?L @ ?sep) @ ?hdr # ([] # split_nl new_content) @ []"
    using nl by (simp add: split_join R_def)
  have a: "\<not> list_ex (header_named U section_name) (?L @ ?sep)"
    using None by (simp add: first_index_None header_named_Nil)
  have b: "\<not> list_ex any_header ([] # split_nl new_content)"
    using assms(2) by (simp add: any_header_Nil)
  have "section_lines U (join_nl R) section_name = [] # split_nl new_content
      \<and> list_ex (header_named U section_name) (split_nl (join_nl R))"
    using s a header_named_own b by (rule section_compose) simp
  then have "apply_patch_to_section U (join_nl R) section_name new_content = join_nl R"
    using reapply_contained[of U section_name "join_nl R" "[[]]" new_content] by simp
  then show ?thesis unfolding r .
next
  case (Some i)
  let ?D1 = "apply_patch_to_section U markdown section_name new_content"
  let ?L = "split_nl markdown"
  let ?e = "target_end U markdown section_name"
  let ?sec = "section_lines U markdown section_name"
  have present: "list_ex (header_named U section_name) ?L"
    using Some first_index_None[of "header_named U section_name" ?L] by auto
  show ?thesis
  proof (cases "?D1 = markdown")
    case True
    then show ?thesis by simp
  next
    case False
    define X where "X = separator ?sec @ split_nl new_content"
    have r: "?D1 = join_nl (take ?e ?L @ X @ drop ?e ?L)"
      using False merge_present[OF present, of new_content]
      by (auto simp: X_def split: if_splits)
    obtain A h T where L: "?L = A @ h # ?sec @ T"
      and nA: "\<not> list_ex (header_named U section_name) A" and h: "header_named U section_name h"
      and nS: "\<not> list_ex any_header ?sec" and T: "T = [] \<or> any_header (hd T)"
      and tk: "take ?e ?L = A @ h # ?sec" and dr: "drop ?e ?L = T"
      using section_decomp[OF Some] by blast
    define R where "R = A @ h # (?sec @ X) @ T"
    have R: "take ?e ?L @ X @ drop ?e ?L = R"
      unfolding tk dr R_def by simp
    have nX: "\<forall>l\<in>set X. NL \<notin> set l"
      using split_nl_lines_no_NL[of _ new_content] by (auto simp: X_def separator_def)
    have nl: "\<forall>l\<in>set R. NL \<notin> set l"
    proof
      fix l assume "l \<in> set R"
      then have "l \<in> set (A @ h # ?sec @ T) \<or> l \<in> set X"
        by (auto simp: R_def)
      then show "NL \<notin> set l"
        using nX split_nl_lines_no_NL[of l markdown] unfolding L[symmetric] by blast
    qed
    have s: "split_nl (join_nl R) = A @ h # (?sec @ X) @ T"
      using nl by (simp add: split_join R_def)
    have b: "\<not> list_ex any_header (?sec @ X)"
      using nS assms(2) by (simp add: X_def separator_def any_header_Nil)
    have "section_lines U (join_nl R) section_name = ?sec @ X
        \<and> list_ex (header_named U section_name) (split_nl (join_nl R))"
      using s nA h b T by (rule section_compose)
    then have "apply_patch_to_section U (join_nl R) section_name new_content = join_nl R"
      using reapply_contained[of U section_name "join_nl R" "?sec @ separator ?sec" new_content]
      by (simp add: X_def)
    then show ?thesis unfolding r R .
  qed
qed

theorem merge_idempotent_witness:
  "NL \<notin> set (u ''characters'') \<and> \<not> list_ex any_header (split_nl zara_line)
   \<and> apply_patch_to_section ascii_case story_doc (u ''characters'') zara_line \<noteq> story_doc
   \<and> apply_patch_to_section ascii_case
        (apply_patch_to_section ascii_case story_doc (u ''characters'') zara_line)
        (u ''characters'') zara_line
      = apply_patch_to_section ascii_case story_doc (u ''characters'') zara_line
   \<and> NL \<notin> set (u ''Ideas-Notes'')
   \<and> \<not> list_ex any_header (split_nl (u ''A talking cat appears.''))
   \<and> apply_patch_to_section ascii_case
        (apply_patch_to_section ascii_case project_doc (u ''Ideas-Notes'')
           (u ''A talking cat appears.''))
        (u ''Ideas-Notes'') (u ''A talking cat appears.'')
      = apply_patch_to_section ascii_case project_doc (u ''Ideas-Notes'')
           (u ''A talking cat appears.'')"
proof -
  have n1: "NL \<notin> set (u ''characters'')"
    by code_simp
  have p1: "\<not> list_ex any_header (split_nl zara_line)"
    by code_simp
  have c1: "apply_patch_to_section ascii_case story_doc (u ''characters'') zara_line \<noteq> story_doc"
    by code_simp
  have n2: "NL \<notin> set (u ''Ideas-Notes'')"
    by code_simp
  have p2: "\<not> list_ex any_header (split_nl (u ''A talking cat appears.''))"
    by code_simp
  show ?thesis
    using n1 p1 c1 n2 p2 merge_idempotent[OF n1 p1, of ascii_case story_doc]
      merge_idempotent[OF n2 p2, of ascii_case project_doc]
    by blast
qed

text \<open>
  A header line in the patch content ends the target section where the content was
  inserted: at the second application the content is outside the section, it is not found
  there and is inserted again.
\<close>

theorem merge_twice_differs:
  "apply_patch_to_section ascii_case setting_doc (u ''Setting'') plot_patch
     = setting_doc @ [NL, NL] @ plot_patch
   \<and> apply_patch_to_section ascii_case
       (apply_patch_to_section ascii_case setting_doc (u ''Setting'') plot_patch)
       (u ''Setting'') plot_patch
     = setting_doc @ [NL, NL] @ plot_patch @ [NL] @ plot_patch
   \<and> apply_patch_to_section ascii_case
       (apply_patch_to_section ascii_case setting_doc (u ''Setting'') plot_patch)
       (u ''Setting'') plot_patch
     \<noteq> apply_patch_to_section ascii_case setting_doc (u ''Setting'') plot_patch"
  by code_simp

end
